theory Spec2Isabelle
  imports Main "HOL-Library.Multiset"
begin

section \<open>Word search generator: the data model\<close>

text \<open>
  The program is \<^verbatim>\<open>src/wordsearch.py\<close>. A Python string is modelled as the list of its code
  points, a grid as a list of rows, a row as a list of cells, a cell as a string. The grid is
  mutated in place by the program; the model passes it explicitly and returns the updated
  grid. The only grid the program builds has rows that are distinct objects, so no two rows
  are aliased and the value model is exact for it.

  Python raises \<^verbatim>\<open>IndexError\<close> on an index out of range and counts a negative index from
  the end of the list; both are written out. \<^verbatim>\<open>ValueError\<close> is the error that
  \<^verbatim>\<open>generate_wordsearch\<close> raises when the search fails. The limits of the interpreter
  (its recursion depth, its memory) are not part of the model: the recursion of the search is
  as deep as the word list is long.
\<close>

datatype error = IndexError | ValueError

type_synonym cell = string
type_synonym grid = "cell list list"
type_synonym direction = "int \<times> int"
type_synonym placement = "int \<times> int \<times> direction"

text \<open>
  The placeholder of the source file is the string of the two code points U+00C2 and U+00B7.
  It has length two, so no string made of a single character is equal to it.
\<close>

definition EMPTY :: cell where
  "EMPTY = [CHR 0xC2, CHR 0xB7]"

definition DIRECTIONS_8 :: "direction list" where
  "DIRECTIONS_8 = [(0, 1), (0, -1), (1, 0), (-1, 0), (1, 1), (1, -1), (-1, 1), (-1, -1)]"

definition ascii_uppercase :: string where
  "ascii_uppercase = ''ABCDEFGHIJKLMNOPQRSTUVWXYZ''"

subsection \<open>Python list indexing\<close>

text \<open>\<open>py_index n i\<close> resolves the index \<open>i\<close> into a list of length \<open>n\<close>.\<close>

definition py_index :: "nat \<Rightarrow> int \<Rightarrow> error + nat" where
  "py_index n i =
     (if 0 \<le> i \<and> i < int n then Inr (nat i)
      else if - int n \<le> i \<and> i < 0 then Inr (nat (int n + i))
      else Inl IndexError)"

text \<open>\<open>py_get xs i\<close> is \<^verbatim>\<open>xs[i]\<close>.\<close>

definition py_get :: "'a list \<Rightarrow> int \<Rightarrow> error + 'a" where
  "py_get xs i = (case py_index (length xs) i of Inl e \<Rightarrow> Inl e | Inr k \<Rightarrow> Inr (xs ! k))"

text \<open>\<open>get_cell grid rr cc\<close> is the read \<^verbatim>\<open>grid[rr][cc]\<close>.\<close>

definition get_cell :: "grid \<Rightarrow> int \<Rightarrow> int \<Rightarrow> error + cell" where
  "get_cell grid rr cc =
     (case py_get grid rr of
        Inl e \<Rightarrow> Inl e
      | Inr row \<Rightarrow> py_get row cc)"

text \<open>\<open>set_cell grid rr cc v\<close> is the assignment \<^verbatim>\<open>grid[rr][cc] = v\<close>.\<close>

definition set_cell :: "grid \<Rightarrow> int \<Rightarrow> int \<Rightarrow> cell \<Rightarrow> error + grid" where
  "set_cell grid rr cc v =
     (case py_index (length grid) rr of
        Inl e \<Rightarrow> Inl e
      | Inr a \<Rightarrow>
          (case py_index (length (grid ! a)) cc of
             Inl e \<Rightarrow> Inl e
           | Inr b \<Rightarrow> Inr (grid[a := (grid ! a)[b := v]])))"

section \<open>Grid construction, bounds and compatibility\<close>

text \<open>\<^verbatim>\<open>range(size)\<close> is empty for a negative size.\<close>

definition make_empty_grid :: "int \<Rightarrow> grid" where
  "make_empty_grid sz = replicate (nat sz) (replicate (nat sz) EMPTY)"

definition in_bounds :: "int \<Rightarrow> int \<Rightarrow> int \<Rightarrow> bool" where
  "in_bounds sz r c = (0 \<le> r \<and> r < sz \<and> 0 \<le> c \<and> c < sz)"

text \<open>
  The loop of \<^verbatim>\<open>can_place_word\<close> over \<^verbatim>\<open>enumerate(word)\<close>: it returns at the first index
  that fails and reads no later cell.
\<close>

fun can_place_loop :: "grid \<Rightarrow> (nat \<times> char) list \<Rightarrow> int \<Rightarrow> int \<Rightarrow> int \<Rightarrow> int \<Rightarrow> error + bool" where
  "can_place_loop grid [] r c dr dc = Inr True"
| "can_place_loop grid ((i, ch) # rest) r c dr dc =
     (let rr = r + int i * dr; cc = c + int i * dc in
      if \<not> in_bounds (int (length grid)) rr cc then Inr False
      else
        (case get_cell grid rr cc of
           Inl e \<Rightarrow> Inl e
         | Inr cell \<Rightarrow>
             if cell \<noteq> EMPTY \<and> cell \<noteq> [ch] then Inr False
             else can_place_loop grid rest r c dr dc))"

definition can_place_word :: "grid \<Rightarrow> string \<Rightarrow> int \<Rightarrow> int \<Rightarrow> int \<Rightarrow> int \<Rightarrow> error + bool" where
  "can_place_word grid word r c dr dc = can_place_loop grid (enumerate 0 word) r c dr dc"

section \<open>Placement and undo\<close>

text \<open>
  The loop of \<^verbatim>\<open>place_word\<close>, with the grid and the list \<^verbatim>\<open>changed\<close> as its state.
  It has no bounds check of its own.
\<close>

fun place_word_loop ::
  "grid \<Rightarrow> (nat \<times> char) list \<Rightarrow> int \<Rightarrow> int \<Rightarrow> int \<Rightarrow> int \<Rightarrow> (int \<times> int) list
     \<Rightarrow> error + grid \<times> (int \<times> int) list" where
  "place_word_loop grid [] r c dr dc changed = Inr (grid, changed)"
| "place_word_loop grid ((i, ch) # rest) r c dr dc changed =
     (let rr = r + int i * dr; cc = c + int i * dc in
      case get_cell grid rr cc of
        Inl e \<Rightarrow> Inl e
      | Inr cell \<Rightarrow>
          if cell = EMPTY then
            (case set_cell grid rr cc [ch] of
               Inl e \<Rightarrow> Inl e
             | Inr grid' \<Rightarrow> place_word_loop grid' rest r c dr dc (changed @ [(rr, cc)]))
          else place_word_loop grid rest r c dr dc changed)"

definition place_word ::
  "grid \<Rightarrow> string \<Rightarrow> int \<Rightarrow> int \<Rightarrow> int \<Rightarrow> int \<Rightarrow> error + grid \<times> (int \<times> int) list" where
  "place_word grid word r c dr dc = place_word_loop grid (enumerate 0 word) r c dr dc []"

fun undo_changes :: "grid \<Rightarrow> (int \<times> int) list \<Rightarrow> error + grid" where
  "undo_changes grid [] = Inr grid"
| "undo_changes grid ((r, c) # changed) =
     (case set_cell grid r c EMPTY of
        Inl e \<Rightarrow> Inl e
      | Inr grid' \<Rightarrow> undo_changes grid' changed)"

section \<open>Candidate enumeration\<close>

text \<open>
  The three nested loops of \<^verbatim>\<open>all_possible_placements\<close>, innermost first, each with the
  list \<^verbatim>\<open>placements\<close> as its state.
\<close>

fun placements_in_directions ::
  "grid \<Rightarrow> string \<Rightarrow> int \<Rightarrow> int \<Rightarrow> direction list \<Rightarrow> placement list
     \<Rightarrow> error + placement list" where
  "placements_in_directions grid word r c [] placements = Inr placements"
| "placements_in_directions grid word r c ((dr, dc) # directions) placements =
     (if dr = 0 \<and> dc = 0 then placements_in_directions grid word r c directions placements
      else
        (case can_place_word grid word r c dr dc of
           Inl e \<Rightarrow> Inl e
         | Inr ok \<Rightarrow>
             placements_in_directions grid word r c directions
               (if ok then placements @ [(r, c, (dr, dc))] else placements)))"

fun placements_in_columns ::
  "grid \<Rightarrow> string \<Rightarrow> direction list \<Rightarrow> int \<Rightarrow> int list \<Rightarrow> placement list
     \<Rightarrow> error + placement list" where
  "placements_in_columns grid word directions r [] placements = Inr placements"
| "placements_in_columns grid word directions r (c # cs) placements =
     (case placements_in_directions grid word r c directions placements of
        Inl e \<Rightarrow> Inl e
      | Inr placements' \<Rightarrow> placements_in_columns grid word directions r cs placements')"

fun placements_in_rows ::
  "grid \<Rightarrow> string \<Rightarrow> direction list \<Rightarrow> int list \<Rightarrow> placement list
     \<Rightarrow> error + placement list" where
  "placements_in_rows grid word directions [] placements = Inr placements"
| "placements_in_rows grid word directions (r # rs) placements =
     (case placements_in_columns grid word directions r (map int [0..<length grid]) placements of
        Inl e \<Rightarrow> Inl e
      | Inr placements' \<Rightarrow> placements_in_rows grid word directions rs placements')"

definition all_possible_placements ::
  "grid \<Rightarrow> string \<Rightarrow> direction list \<Rightarrow> error + placement list" where
  "all_possible_placements grid word directions =
     placements_in_rows grid word directions (map int [0..<length grid]) []"

section \<open>The library the program calls\<close>

text \<open>
  The generator \<^verbatim>\<open>random.Random\<close> and the string methods \<^verbatim>\<open>strip\<close> and \<^verbatim>\<open>upper\<close> are
  Python's, not the repository's. They are parameters of the model: \<open>'g\<close> is the state of
  the generator, \<open>from_seed\<close> builds it from an integer seed, \<open>shuffle\<close> and \<open>choice\<close>
  return their result with the state that follows.
\<close>

record 'g library =
  from_seed :: "int \<Rightarrow> 'g"
  shuffle :: "'g \<Rightarrow> placement list \<Rightarrow> placement list \<times> 'g"
  choice :: "'g \<Rightarrow> string \<Rightarrow> char \<times> 'g"
  strip :: "string \<Rightarrow> string"
  upper :: "string \<Rightarrow> string"

text \<open>
  What the theorems below use of the generator: \<^verbatim>\<open>shuffle\<close> permutes its list, and
  \<^verbatim>\<open>choice\<close> returns an element of a sequence that is not empty.
\<close>

definition rng_ok :: "'g library \<Rightarrow> bool" where
  "rng_ok L \<longleftrightarrow>
     (\<forall>g xs. mset (fst (shuffle L g xs)) = mset xs) \<and>
     (\<forall>g xs. xs \<noteq> [] \<longrightarrow> fst (choice L g xs) \<in> set xs)"

text \<open>
  \<^verbatim>\<open>random.Random(seed)\<close>: with the seed \<^verbatim>\<open>None\<close> Python seeds the generator from the
  operating system; \<open>os_rng\<close> is the state it gets there.
\<close>

definition Random :: "'g library \<Rightarrow> 'g \<Rightarrow> int option \<Rightarrow> 'g" where
  "Random L os_rng seed = (case seed of None \<Rightarrow> os_rng | Some s \<Rightarrow> from_seed L s)"

section \<open>Backtracking search\<close>

text \<open>
  \<open>backtrack_place_words\<close> returns the flag of the source with the grid and the generator
  as the call leaves them. \<open>try_placements\<close> is its \<^verbatim>\<open>for\<close> loop over the shuffled
  placements.
\<close>

function backtrack_place_words ::
  "'g library \<Rightarrow> grid \<Rightarrow> string list \<Rightarrow> int \<Rightarrow> direction list \<Rightarrow> 'g
     \<Rightarrow> error + bool \<times> grid \<times> 'g"
and try_placements ::
  "'g library \<Rightarrow> grid \<Rightarrow> string list \<Rightarrow> int \<Rightarrow> direction list \<Rightarrow> string \<Rightarrow> placement list \<Rightarrow> 'g
     \<Rightarrow> error + bool \<times> grid \<times> 'g" where
  "backtrack_place_words L grid words idx directions rng =
     (if idx = int (length words) then Inr (True, grid, rng)
      else
        (case py_get words idx of
           Inl e \<Rightarrow> Inl e
         | Inr word \<Rightarrow>
             (case all_possible_placements grid word directions of
                Inl e \<Rightarrow> Inl e
              | Inr placements \<Rightarrow>
                  (case shuffle L rng placements of
                     (placements', rng') \<Rightarrow>
                       try_placements L grid words idx directions word placements' rng'))))"
| "try_placements L grid words idx directions word [] rng = Inr (False, grid, rng)"
| "try_placements L grid words idx directions word ((r, c, (dr, dc)) # placements) rng =
     (case place_word grid word r c dr dc of
        Inl e \<Rightarrow> Inl e
      | Inr (grid1, changed) \<Rightarrow>
          (case backtrack_place_words L grid1 words (idx + 1) directions rng of
             Inl e \<Rightarrow> Inl e
           | Inr (success, grid2, rng2) \<Rightarrow>
               if success then Inr (True, grid2, rng2)
               else
                 (case undo_changes grid2 changed of
                    Inl e \<Rightarrow> Inl e
                  | Inr grid3 \<Rightarrow>
                      try_placements L grid3 words idx directions word placements rng2)))"
  by pat_completeness auto
termination
  by (relation "measures
        [\<lambda>x. case x of
               Inl (L, grid, words, idx, directions, rng) \<Rightarrow>
                 2 * nat (int (length words) - idx)
             | Inr (L, grid, words, idx, directions, word, placements, rng) \<Rightarrow>
                 2 * nat (int (length words) - idx - 1) + 1,
         \<lambda>x. case x of
               Inl (L, grid, words, idx, directions, rng) \<Rightarrow> 0
             | Inr (L, grid, words, idx, directions, word, placements, rng) \<Rightarrow>
                 length placements]")
     (auto simp: py_get_def py_index_def split: if_splits)

section \<open>Random fill\<close>

fun fill_columns :: "'g library \<Rightarrow> grid \<Rightarrow> int \<Rightarrow> int list \<Rightarrow> 'g \<Rightarrow> error + grid \<times> 'g" where
  "fill_columns L grid r [] rng = Inr (grid, rng)"
| "fill_columns L grid r (c # cs) rng =
     (case get_cell grid r c of
        Inl e \<Rightarrow> Inl e
      | Inr cell \<Rightarrow>
          if cell = EMPTY then
            (case choice L rng ascii_uppercase of
               (ch, rng') \<Rightarrow>
                 (case set_cell grid r c [ch] of
                    Inl e \<Rightarrow> Inl e
                  | Inr grid' \<Rightarrow> fill_columns L grid' r cs rng'))
          else fill_columns L grid r cs rng)"

fun fill_rows :: "'g library \<Rightarrow> grid \<Rightarrow> int list \<Rightarrow> 'g \<Rightarrow> error + grid \<times> 'g" where
  "fill_rows L grid [] rng = Inr (grid, rng)"
| "fill_rows L grid (r # rs) rng =
     (case fill_columns L grid r (map int [0..<length grid]) rng of
        Inl e \<Rightarrow> Inl e
      | Inr (grid', rng') \<Rightarrow> fill_rows L grid' rs rng')"

definition fill_empty_with_random_letters :: "'g library \<Rightarrow> grid \<Rightarrow> 'g \<Rightarrow> error + grid \<times> 'g" where
  "fill_empty_with_random_letters L grid rng = fill_rows L grid (map int [0..<length grid]) rng"

section \<open>Top-level orchestration\<close>

text \<open>
  \<^verbatim>\<open>cleaned\<close>: the words whose stripped form is not empty, stripped, uppercased and with
  every space removed; then sorted by descending length. Python's sort is stable, also with
  \<^verbatim>\<open>reverse=True\<close>, and so is \<open>sort_key\<close>.
\<close>

definition cleaned_words :: "'g library \<Rightarrow> string list \<Rightarrow> string list" where
  "cleaned_words L words =
     sort_key (\<lambda>w. - int (length w))
       (map (\<lambda>w. filter (\<lambda>ch. ch \<noteq> CHR '' '') (upper L (strip L w)))
          (filter (\<lambda>w. strip L w \<noteq> []) words))"

definition directions_for :: "bool \<Rightarrow> direction list" where
  "directions_for allow_diagonals =
     (if allow_diagonals then DIRECTIONS_8 else [(0, 1), (0, -1), (1, 0), (-1, 0)])"

definition generate_wordsearch ::
  "'g library \<Rightarrow> 'g \<Rightarrow> string list \<Rightarrow> int \<Rightarrow> bool \<Rightarrow> int option \<Rightarrow> error + grid" where
  "generate_wordsearch L os_rng words sz allow_diagonals seed =
     (let rng = Random L os_rng seed;
          cleaned = cleaned_words L words;
          grid = make_empty_grid sz;
          directions = directions_for allow_diagonals
      in case backtrack_place_words L grid cleaned 0 directions rng of
           Inl e \<Rightarrow> Inl e
         | Inr (success, grid', rng') \<Rightarrow>
             if \<not> success then Inl ValueError
             else
               (case fill_empty_with_random_letters L grid' rng' of
                  Inl e \<Rightarrow> Inl e
                | Inr (grid'', rng'') \<Rightarrow> Inr grid''))"

section \<open>Notions used in the statements\<close>

text \<open>
  \<open>cell_ok grid rr cc\<close>: the pair \<open>(rr, cc)\<close> is a coordinate of the grid, an index that is
  not negative and inside row \<open>rr\<close>. \<open>cell_at\<close> reads such a cell. A grid is \<open>square\<close> when
  each of its rows is as long as the grid has rows, which is the shape \<^verbatim>\<open>make_empty_grid\<close>
  builds. Two grids have the \<open>same_shape\<close> when their rows have the same lengths.
\<close>

definition cell_ok :: "grid \<Rightarrow> int \<Rightarrow> int \<Rightarrow> bool" where
  "cell_ok grid rr cc \<longleftrightarrow>
     0 \<le> rr \<and> rr < int (length grid) \<and> 0 \<le> cc \<and> cc < int (length (grid ! nat rr))"

definition cell_at :: "grid \<Rightarrow> int \<Rightarrow> int \<Rightarrow> cell" where
  "cell_at grid rr cc = grid ! nat rr ! nat cc"

definition square :: "grid \<Rightarrow> bool" where
  "square grid \<longleftrightarrow> list_all (\<lambda>row. length row = length grid) grid"

definition same_shape :: "grid \<Rightarrow> grid \<Rightarrow> bool" where
  "same_shape g g' \<longleftrightarrow> map length g = map length g'"

text \<open>\<open>upd\<close> is the write at a coordinate that was resolved.\<close>

definition upd :: "grid \<Rightarrow> nat \<Rightarrow> nat \<Rightarrow> cell \<Rightarrow> grid" where
  "upd grid a b v = grid[a := (grid ! a)[b := v]]"

text \<open>
  \<open>fits_at\<close>: one step of \<^verbatim>\<open>can_place_word\<close> passes, the cell is there and is empty or
  holds the letter.
\<close>

definition fits_at :: "grid \<Rightarrow> int \<Rightarrow> int \<Rightarrow> char \<Rightarrow> bool" where
  "fits_at grid rr cc ch \<longleftrightarrow>
     cell_ok grid rr cc \<and> in_bounds (int (length grid)) rr cc \<and>
     (cell_at grid rr cc = EMPTY \<or> cell_at grid rr cc = [ch])"

text \<open>
  \<open>occurs_at\<close>: the word is written in the grid from \<open>(r, c)\<close> along \<open>(dr, dc)\<close>.
  \<open>extends g g'\<close>: \<open>g'\<close> has the shape of \<open>g\<close> and every cell of \<open>g\<close> that is not the
  placeholder is the same in \<open>g'\<close>.
\<close>

definition occurs_at :: "grid \<Rightarrow> string \<Rightarrow> int \<Rightarrow> int \<Rightarrow> int \<Rightarrow> int \<Rightarrow> bool" where
  "occurs_at g w r c dr dc \<longleftrightarrow>
     (\<forall>i<length w.
        in_bounds (int (length g)) (r + int i * dr) (c + int i * dc) \<and>
        cell_ok g (r + int i * dr) (c + int i * dc) \<and>
        cell_at g (r + int i * dr) (c + int i * dc) = [w ! i])"

definition extends :: "grid \<Rightarrow> grid \<Rightarrow> bool" where
  "extends g g' \<longleftrightarrow>
     same_shape g g' \<and>
     (\<forall>rr cc. cell_ok g rr cc \<longrightarrow> cell_at g rr cc \<noteq> EMPTY \<longrightarrow> cell_at g' rr cc = cell_at g rr cc)"

text \<open>
  The placements of a word as one list expression: for each row, each column and each listed
  direction in turn, the triple when the direction is not zero and \<^verbatim>\<open>can_place_word\<close>
  holds.
\<close>

definition candidates_at :: "grid \<Rightarrow> string \<Rightarrow> direction list \<Rightarrow> int \<Rightarrow> int \<Rightarrow> placement list" where
  "candidates_at g w ds r c =
     map (\<lambda>d. (r, c, d))
       (filter (\<lambda>(dr, dc). \<not> (dr = 0 \<and> dc = 0) \<and> can_place_word g w r c dr dc = Inr True) ds)"

definition candidates :: "grid \<Rightarrow> string \<Rightarrow> direction list \<Rightarrow> placement list" where
  "candidates g w ds =
     concat (map (\<lambda>r. concat (map (candidates_at g w ds r) (map int [0..<length g])))
       (map int [0..<length g]))"

text \<open>
  \<open>is_letter\<close>: the cell is a string of one character of \<^verbatim>\<open>string.ascii_uppercase\<close>.
  \<open>all_cells P\<close>: every cell of every row satisfies \<open>P\<close>. \<open>completed sz g\<close>: the grid has
  \<open>sz\<close> rows of \<open>sz\<close> cells and no cell is the placeholder.
\<close>

definition is_letter :: "cell \<Rightarrow> bool" where
  "is_letter cell \<longleftrightarrow> cell \<in> set (map (\<lambda>ch. [ch]) ascii_uppercase)"

definition all_cells :: "(cell \<Rightarrow> bool) \<Rightarrow> grid \<Rightarrow> bool" where
  "all_cells P g \<longleftrightarrow> list_all (list_all P) g"

definition completed :: "int \<Rightarrow> grid \<Rightarrow> bool" where
  "completed sz g \<longleftrightarrow>
     length g = nat sz \<and>
     list_all (\<lambda>row. length row = nat sz \<and> list_all (\<lambda>cell. cell \<noteq> EMPTY) row) g"

text \<open>
  \<open>fills g g'\<close>: \<open>g'\<close> has the shape of \<open>g\<close> and each cell is either unchanged or was the
  placeholder and is now a letter.
\<close>

definition fills :: "grid \<Rightarrow> grid \<Rightarrow> bool" where
  "fills g g' \<longleftrightarrow>
     same_shape g g' \<and>
     (\<forall>rr cc. cell_ok g rr cc \<longrightarrow>
        cell_at g' rr cc = cell_at g rr cc \<or>
        (cell_at g rr cc = EMPTY \<and> is_letter (cell_at g' rr cc)))"

text \<open>\<open>appears\<close>: the word is written somewhere in the grid along a listed direction.\<close>

definition appears :: "grid \<Rightarrow> string \<Rightarrow> direction list \<Rightarrow> bool" where
  "appears g w ds \<longleftrightarrow>
     (\<exists>r c dr dc. (dr, dc) \<in> set ds \<and> \<not> (dr = 0 \<and> dc = 0) \<and> occurs_at g w r c dr dc)"

subsection \<open>Arrangements\<close>

text \<open>
  Following the specification's words, not the search: an arrangement of the words fits the
  grid under a direction set when it gives each word, in order, a start cell of the grid and a
  listed direction that is not zero, such that stepping the letters from the cell along the
  direction every cell is in bounds and either empty or already holds the same letter, on
  the grid that the words before it have been written into.
\<close>

fun arrangement_fits :: "grid \<Rightarrow> string list \<Rightarrow> direction list \<Rightarrow> placement list \<Rightarrow> bool" where
  "arrangement_fits g [] ds [] = True"
| "arrangement_fits g (w # ws) ds ((r, c, (dr, dc)) # ps) =
     (in_bounds (int (length g)) r c \<and> (dr, dc) \<in> set ds \<and> \<not> (dr = 0 \<and> dc = 0) \<and>
      can_place_word g w r c dr dc = Inr True \<and>
      (case place_word g w r c dr dc of
         Inl e \<Rightarrow> False
       | Inr (g', changed) \<Rightarrow> arrangement_fits g' ws ds ps))"
| "arrangement_fits g ws ds ps = False"

text \<open>\<open>leads_on\<close>: after this placement of the word the remaining words can be arranged.\<close>

definition leads_on :: "grid \<Rightarrow> string \<Rightarrow> string list \<Rightarrow> direction list \<Rightarrow> placement \<Rightarrow> bool" where
  "leads_on g w ws ds p \<longleftrightarrow>
     (case p of (r, c, (dr, dc)) \<Rightarrow>
        \<exists>g1 changed qs. place_word g w r c dr dc = Inr (g1, changed) \<and> arrangement_fits g1 ws ds qs)"

subsection \<open>An instance of the library\<close>

text \<open>
  For evaluating the model on concrete inputs: a counter as generator, whose \<open>shuffle\<close>
  rotates the list by the counter and whose \<open>choice\<close> indexes by it, and \<open>strip\<close> and
  \<open>upper\<close> on ASCII.
\<close>

definition ascii_upper_char :: "char \<Rightarrow> char" where
  "ascii_upper_char ch =
     (case map_of (zip ''abcdefghijklmnopqrstuvwxyz'' ''ABCDEFGHIJKLMNOPQRSTUVWXYZ'') ch of
        None \<Rightarrow> ch | Some u \<Rightarrow> u)"

definition ascii_space :: "char \<Rightarrow> bool" where
  "ascii_space ch \<longleftrightarrow>
     ch \<in> set [CHR '' '', CHR 0x09, CHR 0x0A, CHR 0x0B, CHR 0x0C, CHR 0x0D,
                CHR 0x1C, CHR 0x1D, CHR 0x1E, CHR 0x1F]"

definition ascii_strip :: "string \<Rightarrow> string" where
  "ascii_strip s = rev (dropWhile ascii_space (rev (dropWhile ascii_space s)))"

definition demo_library :: "nat library" where
  "demo_library =
     \<lparr>from_seed = (\<lambda>s. nat \<bar>s\<bar>),
      shuffle = (\<lambda>g xs. (rotate g xs, Suc g)),
      choice = (\<lambda>g xs. (xs ! (g mod length xs), Suc g)),
      strip = ascii_strip,
      upper = map ascii_upper_char\<rparr>"

definition demo_grid :: grid where
  "demo_grid = [[''A'', EMPTY], [EMPTY, EMPTY]]"

text \<open>The grid the instance generates for the words cat and dog, size 3, seed 1.\<close>

definition demo_result :: grid where
  "demo_result = [[''C'', ''G'', ''D''], [''A'', ''O'', ''E''], [''T'', ''D'', ''F'']]"

section \<open>Lemmas\<close>

subsection \<open>Reading and writing a cell of the grid\<close>

lemma get_cell_ok: "cell_ok grid rr cc \<Longrightarrow> get_cell grid rr cc = Inr (cell_at grid rr cc)"
  by (simp add: cell_ok_def get_cell_def py_get_def py_index_def cell_at_def)

lemma set_cell_ok: "cell_ok grid rr cc \<Longrightarrow> set_cell grid rr cc v = Inr (upd grid (nat rr) (nat cc) v)"
  by (simp add: cell_ok_def set_cell_def py_index_def upd_def)

lemma square_cell_ok:
  "square grid \<Longrightarrow> in_bounds (int (length grid)) rr cc \<Longrightarrow> cell_ok grid rr cc"
  by (auto simp: square_def in_bounds_def cell_ok_def list_all_iff)

lemma get_cell_in_bounds_Inr:
  "in_bounds (int (length grid)) rr cc \<Longrightarrow> get_cell grid rr cc = Inr v \<Longrightarrow> cell_ok grid rr cc \<and> v = cell_at grid rr cc"
  by (auto simp: in_bounds_def cell_ok_def get_cell_def py_get_def py_index_def cell_at_def split: if_splits)

lemma can_place_loop_True_iff:
  "can_place_loop grid es r c dr dc = Inr True \<longleftrightarrow>
     (\<forall>(i, ch) \<in> set es. fits_at grid (r + int i * dr) (c + int i * dc) ch)"
proof (induction es)
  case Nil
  then show ?case by simp
next
  case (Cons e es)
  obtain i ch where e: "e = (i, ch)" by (cases e)
  show ?case
  proof (cases "in_bounds (int (length grid)) (r + int i * dr) (c + int i * dc)")
    case False
    then show ?thesis by (simp add: e fits_at_def Let_def)
  next
    case True
    show ?thesis
    proof (cases "get_cell grid (r + int i * dr) (c + int i * dc)")
      case (Inl err)
      with True have "\<not> cell_ok grid (r + int i * dr) (c + int i * dc)"
        using get_cell_ok by fastforce
      with True Inl show ?thesis by (simp add: e fits_at_def Let_def)
    next
      case (Inr v)
      with True have "cell_ok grid (r + int i * dr) (c + int i * dc)" "v = cell_at grid (r + int i * dr) (c + int i * dc)"
        using get_cell_in_bounds_Inr by blast+
      with True Inr Cons.IH show ?thesis by (auto simp: e fits_at_def Let_def)
    qed
  qed
qed

lemma can_place_loop_square:
  "square grid \<Longrightarrow> can_place_loop grid es r c dr dc =
     Inr (\<forall>(i, ch) \<in> set es. fits_at grid (r + int i * dr) (c + int i * dc) ch)"
proof (induction es)
  case Nil
  then show ?case by simp
next
  case (Cons e es)
  obtain i ch where e: "e = (i, ch)" by (cases e)
  show ?case
  proof (cases "in_bounds (int (length grid)) (r + int i * dr) (c + int i * dc)")
    case False
    then show ?thesis by (simp add: e fits_at_def Let_def)
  next
    case True
    with Cons.prems have ok: "cell_ok grid (r + int i * dr) (c + int i * dc)"
      by (rule square_cell_ok)
    show ?thesis using True ok Cons.IH [OF Cons.prems]
      by (auto simp: e fits_at_def get_cell_ok Let_def)
  qed
qed

lemma set_enumerate_ball:
  "(\<forall>(i, ch) \<in> set (enumerate 0 word). P i ch) \<longleftrightarrow> (\<forall>i<length word. P i (word ! i))"
  by (auto simp: in_set_enumerate_eq)

lemma same_shape_refl [simp]: "same_shape g g"
  by (simp add: same_shape_def)

lemma same_shape_trans: "same_shape g g' \<Longrightarrow> same_shape g' g'' \<Longrightarrow> same_shape g g''"
  by (simp add: same_shape_def)

lemma same_shape_sym: "same_shape g g' \<Longrightarrow> same_shape g' g"
  by (simp add: same_shape_def)

lemma same_shape_length: "same_shape g g' \<Longrightarrow> length g = length g'"
  unfolding same_shape_def by (metis length_map)

lemma same_shape_row: "same_shape g g' \<Longrightarrow> a < length g \<Longrightarrow> length (g ! a) = length (g' ! a)"
  unfolding same_shape_def by (metis length_map nth_map)

lemma same_shape_cell_ok: "same_shape g g' \<Longrightarrow> cell_ok g rr cc = cell_ok g' rr cc"
  unfolding cell_ok_def
  by (metis (no_types, opaque_lifting) same_shape_length same_shape_row nat_less_iff)

lemma same_shape_upd [simp]: "same_shape g (upd g a b v)"
proof (cases "a < length g")
  case True
  then show ?thesis
    unfolding same_shape_def upd_def
    by (intro nth_equalityI) (simp_all add: nth_list_update)
next
  case False
  then show ?thesis by (simp add: same_shape_def upd_def list_update_beyond)
qed

lemma same_shape_square: "same_shape g g' \<Longrightarrow> square g \<Longrightarrow> square g'"
  unfolding square_def list_all_length
  by (metis same_shape_length same_shape_row)

lemma cell_at_upd:
  "cell_ok g rr cc \<Longrightarrow>
   cell_at (upd g a b v) rr cc = (if nat rr = a \<and> nat cc = b then v else cell_at g rr cc)"
  by (cases "a < length g") (auto simp: cell_ok_def cell_at_def upd_def nth_list_update)

lemma cell_at_upd_same:
  "cell_ok g rr cc \<Longrightarrow> cell_at (upd g (nat rr) (nat cc) v) rr cc = v"
  by (simp add: cell_at_upd)

lemma cell_at_upd_other:
  "cell_ok g rr cc \<Longrightarrow> cell_ok g rr' cc' \<Longrightarrow> (rr', cc') \<noteq> (rr, cc) \<Longrightarrow>
   cell_at (upd g (nat rr) (nat cc) v) rr' cc' = cell_at g rr' cc'"
  by (auto simp: cell_at_upd cell_ok_def)

lemma grid_eqI:
  assumes "same_shape g g'"
    and "\<And>rr cc. cell_ok g rr cc \<Longrightarrow> cell_at g rr cc = cell_at g' rr cc"
  shows "g = g'"
proof (rule nth_equalityI)
  show "length g = length g'" using assms(1) by (rule same_shape_length)
next
  fix a assume a: "a < length g"
  show "g ! a = g' ! a"
  proof (rule nth_equalityI)
    show "length (g ! a) = length (g' ! a)" using assms(1) a by (rule same_shape_row)
  next
    fix b assume b: "b < length (g ! a)"
    from a b have "cell_ok g (int a) (int b)" by (simp add: cell_ok_def)
    from assms(2) [OF this] show "g ! a ! b = g' ! a ! b" by (simp add: cell_at_def)
  qed
qed

lemma single_char_not_EMPTY [simp]: "[ch] \<noteq> EMPTY" "EMPTY \<noteq> [ch]"
  by (simp_all add: EMPTY_def)

subsection \<open>What undo does to each cell\<close>

lemma undo_changes_spec:
  assumes "\<forall>(rr, cc) \<in> set changed. cell_ok g rr cc"
  shows "\<exists>g'. undo_changes g changed = Inr g' \<and> same_shape g g' \<and>
           (\<forall>rr cc. cell_ok g rr cc \<longrightarrow>
              cell_at g' rr cc = (if (rr, cc) \<in> set changed then EMPTY else cell_at g rr cc))"
  using assms
proof (induction changed arbitrary: g)
  case Nil
  then show ?case by simp
next
  case (Cons p changed)
  obtain r c where p: "p = (r, c)" by (cases p)
  let ?g1 = "upd g (nat r) (nat c) EMPTY"
  from Cons.prems have ok: "cell_ok g r c" by (simp add: p)
  have sh: "same_shape g ?g1" by simp
  have "\<forall>(rr, cc) \<in> set changed. cell_ok ?g1 rr cc"
    using Cons.prems same_shape_cell_ok [OF sh] by auto
  from Cons.IH [OF this] obtain g' where g':
    "undo_changes ?g1 changed = Inr g'" "same_shape ?g1 g'"
    "\<forall>rr cc. cell_ok ?g1 rr cc \<longrightarrow>
        cell_at g' rr cc = (if (rr, cc) \<in> set changed then EMPTY else cell_at ?g1 rr cc)"
    by blast
  have 1: "undo_changes g (p # changed) = Inr g'"
    using ok g'(1) by (simp add: p set_cell_ok)
  have 2: "same_shape g g'" using sh g'(2) by (rule same_shape_trans)
  have 3: "cell_at g' rr cc = (if (rr, cc) \<in> set (p # changed) then EMPTY else cell_at g rr cc)"
    if "cell_ok g rr cc" for rr cc
  proof -
    from that have "cell_ok ?g1 rr cc" using same_shape_cell_ok [OF sh] by simp
    with g'(3) have "cell_at g' rr cc = (if (rr, cc) \<in> set changed then EMPTY else cell_at ?g1 rr cc)"
      by blast
    moreover have "cell_at ?g1 rr cc = (if (rr, cc) = (r, c) then EMPTY else cell_at g rr cc)"
      using that ok by (auto simp: cell_at_upd cell_ok_def)
    ultimately show ?thesis by (auto simp: p)
  qed
  from 1 2 3 show ?case by blast
qed

subsection \<open>What a placement does to each cell\<close>

lemma place_word_loop_spec:
  assumes "\<forall>(i, ch) \<in> set es. cell_ok g (r + int i * dr) (c + int i * dc)"
  shows "\<exists>g' new. place_word_loop g es r c dr dc changed = Inr (g', changed @ new) \<and>
           same_shape g g' \<and>
           (\<forall>(rr, cc) \<in> set new. cell_ok g rr cc \<and> cell_at g rr cc = EMPTY) \<and>
           (\<forall>rr cc. cell_ok g rr cc \<longrightarrow> (rr, cc) \<notin> set new \<longrightarrow> cell_at g' rr cc = cell_at g rr cc)"
  using assms
proof (induction es arbitrary: g changed)
  case Nil
  then show ?case by simp
next
  case (Cons e es)
  obtain i ch where e: "e = (i, ch)" by (cases e)
  let ?rr = "r + int i * dr" and ?cc = "c + int i * dc"
  from Cons.prems have ok: "cell_ok g ?rr ?cc" by (simp add: e)
  show ?case
  proof (cases "cell_at g ?rr ?cc = EMPTY")
    case False
    from Cons.prems have "\<forall>(i, ch) \<in> set es. cell_ok g (r + int i * dr) (c + int i * dc)"
      by simp
    from Cons.IH [OF this, of changed] show ?thesis
      using ok False by (simp add: e get_cell_ok Let_def)
  next
    case True
    let ?g1 = "upd g (nat ?rr) (nat ?cc) [ch]"
    have sh: "same_shape g ?g1" by simp
    have "\<forall>(i, ch) \<in> set es. cell_ok ?g1 (r + int i * dr) (c + int i * dc)"
      using Cons.prems same_shape_cell_ok [OF sh] by auto
    from Cons.IH [OF this, of "changed @ [(?rr, ?cc)]"] obtain g' new where g':
      "place_word_loop ?g1 es r c dr dc (changed @ [(?rr, ?cc)]) = Inr (g', (changed @ [(?rr, ?cc)]) @ new)"
      "same_shape ?g1 g'"
      "\<forall>(rr, cc) \<in> set new. cell_ok ?g1 rr cc \<and> cell_at ?g1 rr cc = EMPTY"
      "\<forall>rr cc. cell_ok ?g1 rr cc \<longrightarrow> (rr, cc) \<notin> set new \<longrightarrow> cell_at g' rr cc = cell_at ?g1 rr cc"
      by blast
    have 1: "place_word_loop g (e # es) r c dr dc changed = Inr (g', changed @ ((?rr, ?cc) # new))"
      using ok True g'(1) by (simp add: e get_cell_ok set_cell_ok Let_def)
    have 2: "same_shape g g'" using sh g'(2) by (rule same_shape_trans)
    have 3: "cell_ok g rr cc \<and> cell_at g rr cc = EMPTY" if "(rr, cc) \<in> set ((?rr, ?cc) # new)" for rr cc
    proof (cases "(rr, cc) = (?rr, ?cc)")
      case True
      then show ?thesis using ok \<open>cell_at g ?rr ?cc = EMPTY\<close> by simp
    next
      case False
      with that have "(rr, cc) \<in> set new" by auto
      with g'(3) have a: "cell_ok ?g1 rr cc" "cell_at ?g1 rr cc = EMPTY" by auto
      from a(1) have b: "cell_ok g rr cc" using same_shape_cell_ok [OF sh] by simp
      from cell_at_upd_other [OF ok b False] a(2) b show ?thesis by simp
    qed
    have 4: "cell_at g' rr cc = cell_at g rr cc"
      if "cell_ok g rr cc" "(rr, cc) \<notin> set ((?rr, ?cc) # new)" for rr cc
    proof -
      from that have ne: "(rr, cc) \<noteq> (?rr, ?cc)" "(rr, cc) \<notin> set new" by auto
      from that(1) have "cell_ok ?g1 rr cc" using same_shape_cell_ok [OF sh] by simp
      with g'(4) ne(2) have "cell_at g' rr cc = cell_at ?g1 rr cc" by blast
      also have "\<dots> = cell_at g rr cc" using cell_at_upd_other [OF ok that(1) ne(1)] .
      finally show ?thesis .
    qed
    from 1 2 3 4 show ?thesis by blast
  qed
qed

lemma place_undo:
  assumes "\<forall>(i, ch) \<in> set es. cell_ok g (r + int i * dr) (c + int i * dc)"
  shows "\<exists>g' changed. place_word_loop g es r c dr dc [] = Inr (g', changed) \<and>
           same_shape g g' \<and> undo_changes g' changed = Inr g"
proof -
  from place_word_loop_spec [OF assms, of "[]"] obtain g' new where p:
    "place_word_loop g es r c dr dc [] = Inr (g', new)"
    "same_shape g g'"
    "\<forall>(rr, cc) \<in> set new. cell_ok g rr cc \<and> cell_at g rr cc = EMPTY"
    "\<forall>rr cc. cell_ok g rr cc \<longrightarrow> (rr, cc) \<notin> set new \<longrightarrow> cell_at g' rr cc = cell_at g rr cc"
    by auto
  have "\<forall>(rr, cc) \<in> set new. cell_ok g' rr cc"
    using p(3) same_shape_cell_ok [OF p(2)] by auto
  from undo_changes_spec [OF this] obtain g'' where u:
    "undo_changes g' new = Inr g''" "same_shape g' g''"
    "\<forall>rr cc. cell_ok g' rr cc \<longrightarrow>
       cell_at g'' rr cc = (if (rr, cc) \<in> set new then EMPTY else cell_at g' rr cc)"
    by blast
  have "g = g''"
  proof (rule grid_eqI)
    show "same_shape g g''" using p(2) u(2) by (rule same_shape_trans)
  next
    fix rr cc assume ok: "cell_ok g rr cc"
    then have "cell_ok g' rr cc" using same_shape_cell_ok [OF p(2)] by simp
    with u(3) have "cell_at g'' rr cc = (if (rr, cc) \<in> set new then EMPTY else cell_at g' rr cc)"
      by blast
    with p(3) p(4) ok show "cell_at g rr cc = cell_at g'' rr cc" by auto
  qed
  with p(1) p(2) u(1) show ?thesis by blast
qed

lemma can_place_word_cells:
  assumes "can_place_word g w r c dr dc = Inr True"
  shows "\<forall>(i, ch) \<in> set (enumerate 0 w). fits_at g (r + int i * dr) (c + int i * dc) ch"
  using assms unfolding can_place_word_def by (simp add: can_place_loop_True_iff)

lemma can_place_word_cell_ok:
  assumes "can_place_word g w r c dr dc = Inr True"
  shows "\<forall>(i, ch) \<in> set (enumerate 0 w). cell_ok g (r + int i * dr) (c + int i * dc)"
  using can_place_word_cells [OF assms] by (auto simp: fits_at_def)

lemma place_word_undo:
  assumes "can_place_word g w r c dr dc = Inr True"
  shows "\<exists>g' changed. place_word g w r c dr dc = Inr (g', changed) \<and>
           same_shape g g' \<and> undo_changes g' changed = Inr g"
  unfolding place_word_def
  by (rule place_undo) (rule can_place_word_cell_ok [OF assms])

subsection \<open>Enumeration\<close>

lemma placements_in_directions_Inr:
  "placements_in_directions g w r c ds acc = Inr ps \<Longrightarrow> ps = acc @ candidates_at g w ds r c"
proof (induction ds arbitrary: acc)
  case Nil
  then show ?case by (simp add: candidates_at_def)
next
  case (Cons d ds)
  obtain dr dc where d: "d = (dr, dc)" by (cases d)
  show ?case
  proof (cases "dr = 0 \<and> dc = 0")
    case True
    with Cons show ?thesis by (simp add: d candidates_at_def)
  next
    case False
    with Cons.prems obtain ok where ok: "can_place_word g w r c dr dc = Inr ok"
      by (auto simp: d split: sum.splits)
    with Cons.prems False have
      "placements_in_directions g w r c ds (if ok then acc @ [(r, c, (dr, dc))] else acc) = Inr ps"
      by (simp add: d)
    from Cons.IH [OF this] ok False show ?thesis
      by (auto simp: d candidates_at_def)
  qed
qed

lemma can_place_word_square_Inr:
  "square g \<Longrightarrow> \<exists>ok. can_place_word g w r c dr dc = Inr ok"
  unfolding can_place_word_def by (simp add: can_place_loop_square)

lemma placements_in_directions_total:
  "square g \<Longrightarrow> \<exists>ps. placements_in_directions g w r c ds acc = Inr ps"
proof (induction ds arbitrary: acc)
  case Nil
  then show ?case by simp
next
  case (Cons d ds)
  obtain dr dc where d: "d = (dr, dc)" by (cases d)
  from can_place_word_square_Inr [OF Cons.prems] obtain ok where
    "can_place_word g w r c dr dc = Inr ok" by blast
  with Cons.IH [OF Cons.prems] show ?case by (simp add: d)
qed

lemma placements_in_columns_Inr:
  "placements_in_columns g w ds r cs acc = Inr ps \<Longrightarrow>
   ps = acc @ concat (map (candidates_at g w ds r) cs)"
proof (induction cs arbitrary: acc)
  case Nil
  then show ?case by simp
next
  case (Cons c cs)
  from Cons.prems obtain ps1 where 1: "placements_in_directions g w r c ds acc = Inr ps1"
    and 2: "placements_in_columns g w ds r cs ps1 = Inr ps"
    by (auto split: sum.splits)
  from placements_in_directions_Inr [OF 1] Cons.IH [OF 2] show ?case by simp
qed

lemma placements_in_columns_total:
  "square g \<Longrightarrow> \<exists>ps. placements_in_columns g w ds r cs acc = Inr ps"
proof (induction cs arbitrary: acc)
  case Nil
  then show ?case by simp
next
  case (Cons c cs)
  from placements_in_directions_total [OF Cons.prems] obtain ps1 where
    "placements_in_directions g w r c ds acc = Inr ps1" by blast
  with Cons.IH [OF Cons.prems] show ?case by simp
qed

lemma placements_in_rows_Inr:
  "placements_in_rows g w ds rs acc = Inr ps \<Longrightarrow>
   ps = acc @ concat (map (\<lambda>r. concat (map (candidates_at g w ds r) (map int [0..<length g]))) rs)"
proof (induction rs arbitrary: acc)
  case Nil
  then show ?case by simp
next
  case (Cons r rs)
  from Cons.prems obtain ps1 where
    1: "placements_in_columns g w ds r (map int [0..<length g]) acc = Inr ps1"
    and 2: "placements_in_rows g w ds rs ps1 = Inr ps"
    by (auto split: sum.splits)
  from placements_in_columns_Inr [OF 1] Cons.IH [OF 2] show ?case by simp
qed

lemma placements_in_rows_total:
  "square g \<Longrightarrow> \<exists>ps. placements_in_rows g w ds rs acc = Inr ps"
proof (induction rs arbitrary: acc)
  case Nil
  then show ?case by simp
next
  case (Cons r rs)
  from placements_in_columns_total [OF Cons.prems] obtain ps1 where
    "placements_in_columns g w ds r (map int [0..<length g]) acc = Inr ps1" by blast
  with Cons.IH [OF Cons.prems] show ?case by simp
qed

lemma all_possible_placements_Inr:
  "all_possible_placements g w ds = Inr ps \<Longrightarrow> ps = candidates g w ds"
  unfolding all_possible_placements_def candidates_def
  by (drule placements_in_rows_Inr) simp

lemma all_possible_placements_square:
  "square g \<Longrightarrow> all_possible_placements g w ds = Inr (candidates g w ds)"
  using placements_in_rows_total [of g w ds "map int [0..<length g]" "[]"]
    all_possible_placements_Inr [of g w ds]
  unfolding all_possible_placements_def by auto

lemma set_candidates:
  "set (candidates g w ds) =
     {(r, c, (dr, dc)) | r c dr dc.
        in_bounds (int (length g)) r c \<and> (dr, dc) \<in> set ds \<and> \<not> (dr = 0 \<and> dc = 0) \<and>
        can_place_word g w r c dr dc = Inr True}"
  unfolding candidates_def candidates_at_def in_bounds_def
  by (auto simp: image_iff) (metis nat_less_iff nat_0_le atLeastLessThan_iff atLeast0LessThan lessThan_iff)+

subsection \<open>A word longer than the grid\<close>

lemma run_fits_length:
  assumes "\<forall>i<n. 0 \<le> r + int i * d \<and> r + int i * d < int m" and "d \<noteq> 0"
  shows "n \<le> m"
proof -
  let ?f = "\<lambda>i::nat. nat (r + int i * d)"
  have "inj_on ?f {..<n}"
  proof (rule inj_onI)
    fix x y assume x: "x \<in> {..<n}" and y: "y \<in> {..<n}" and eq: "?f x = ?f y"
    from x y assms(1) have "0 \<le> r + int x * d" "0 \<le> r + int y * d" by auto
    with eq have "r + int x * d = r + int y * d" by linarith
    then have "int x * d = int y * d" by simp
    with assms(2) show "x = y" by simp
  qed
  moreover have "?f ` {..<n} \<subseteq> {..<m}" using assms(1) by auto
  ultimately have "card {..<n} \<le> card {..<m}"
    by (meson card_inj_on_le finite_lessThan)
  then show ?thesis by simp
qed

lemma can_place_word_in_bounds:
  assumes "can_place_word g w r c dr dc = Inr True" and "i < length w"
  shows "in_bounds (int (length g)) (r + int i * dr) (c + int i * dc)"
    and "cell_ok g (r + int i * dr) (c + int i * dc)"
    and "cell_at g (r + int i * dr) (c + int i * dc) = EMPTY \<or>
         cell_at g (r + int i * dr) (c + int i * dc) = [w ! i]"
  using can_place_word_cells [OF assms(1)] assms(2)
  by (auto simp: set_enumerate_ball fits_at_def)

lemma can_place_word_length:
  assumes "can_place_word g w r c dr dc = Inr True" and "\<not> (dr = 0 \<and> dc = 0)"
  shows "length w \<le> length g"
proof (cases "dr = 0")
  case False
  have "\<forall>i<length w. 0 \<le> r + int i * dr \<and> r + int i * dr < int (length g)"
    using can_place_word_in_bounds(1) [OF assms(1)] by (simp add: in_bounds_def)
  then show ?thesis using False by (rule run_fits_length)
next
  case True
  with assms(2) have "dc \<noteq> 0" by simp
  have "\<forall>i<length w. 0 \<le> c + int i * dc \<and> c + int i * dc < int (length g)"
    using can_place_word_in_bounds(1) [OF assms(1)] by (simp add: in_bounds_def)
  then show ?thesis using \<open>dc \<noteq> 0\<close> by (rule run_fits_length)
qed

lemma candidates_too_long:
  assumes "length g < length w"
  shows "candidates g w ds = []"
proof -
  have "p \<notin> set (candidates g w ds)" for p
  proof
    assume "p \<in> set (candidates g w ds)"
    then obtain r c dr dc where "\<not> (dr = 0 \<and> dc = 0)" "can_place_word g w r c dr dc = Inr True"
      unfolding set_candidates by blast
    then have "length w \<le> length g" by (rule can_place_word_length [rotated])
    with assms show False by simp
  qed
  then show ?thesis by (meson last_in_set)
qed

subsection \<open>Cells that hold a letter stay\<close>

lemma extends_refl [simp]: "extends g g"
  by (simp add: extends_def)

lemma extends_trans: "extends g g' \<Longrightarrow> extends g' g'' \<Longrightarrow> extends g g''"
  unfolding extends_def
  by (metis same_shape_trans same_shape_cell_ok)

lemma extends_same_shape: "extends g g' \<Longrightarrow> same_shape g g'"
  by (simp add: extends_def)

lemma extends_upd:
  "cell_ok g rr cc \<Longrightarrow> cell_at g rr cc = EMPTY \<Longrightarrow> extends g (upd g (nat rr) (nat cc) v)"
  unfolding extends_def
proof (intro conjI allI impI)
  show "same_shape g (upd g (nat rr) (nat cc) v)" by simp
next
  fix rr' cc'
  assume a: "cell_ok g rr cc" "cell_at g rr cc = EMPTY" "cell_ok g rr' cc'" "cell_at g rr' cc' \<noteq> EMPTY"
  then have "(rr', cc') \<noteq> (rr, cc)" by auto
  with a show "cell_at (upd g (nat rr) (nat cc) v) rr' cc' = cell_at g rr' cc'"
    by (simp add: cell_at_upd_other)
qed

lemma occurs_at_extends:
  assumes "occurs_at g w r c dr dc" and "extends g g'"
  shows "occurs_at g' w r c dr dc"
  unfolding occurs_at_def
proof (intro allI impI)
  fix i assume i: "i < length w"
  let ?rr = "r + int i * dr" and ?cc = "c + int i * dc"
  from assms(1) i have a: "in_bounds (int (length g)) ?rr ?cc" "cell_ok g ?rr ?cc"
    "cell_at g ?rr ?cc = [w ! i]"
    by (auto simp: occurs_at_def)
  from assms(2) have sh: "same_shape g g'" by (rule extends_same_shape)
  have "cell_at g' ?rr ?cc = cell_at g ?rr ?cc"
    using assms(2) a(2) a(3) by (simp add: extends_def)
  with a same_shape_length [OF sh] same_shape_cell_ok [OF sh]
  show "in_bounds (int (length g')) ?rr ?cc \<and> cell_ok g' ?rr ?cc \<and> cell_at g' ?rr ?cc = [w ! i]"
    by simp
qed

lemma place_word_loop_extends:
  assumes "\<forall>(i, ch) \<in> set es. cell_ok g (r + int i * dr) (c + int i * dc)"
    and "place_word_loop g es r c dr dc changed = Inr (g', changed')"
  shows "extends g g'"
proof -
  from place_word_loop_spec [OF assms(1), of changed] assms(2) obtain new where p:
    "same_shape g g'"
    "\<forall>(rr, cc) \<in> set new. cell_ok g rr cc \<and> cell_at g rr cc = EMPTY"
    "\<forall>rr cc. cell_ok g rr cc \<longrightarrow> (rr, cc) \<notin> set new \<longrightarrow> cell_at g' rr cc = cell_at g rr cc"
    by auto
  show ?thesis unfolding extends_def
    using p by blast
qed

lemma place_word_loop_occurs:
  assumes "\<forall>(i, ch) \<in> set es. fits_at g (r + int i * dr) (c + int i * dc) ch"
    and "distinct (map fst es)" and "\<not> (dr = 0 \<and> dc = 0)"
    and "place_word_loop g es r c dr dc changed = Inr (g', changed')"
  shows "\<forall>(i, ch) \<in> set es. cell_at g' (r + int i * dr) (c + int i * dc) = [ch]"
  using assms
proof (induction es arbitrary: g changed)
  case Nil
  then show ?case by simp
next
  case (Cons e es)
  obtain i ch where e: "e = (i, ch)" by (cases e)
  let ?rr = "r + int i * dr" and ?cc = "c + int i * dc"
  from Cons.prems(1) have fit: "fits_at g ?rr ?cc ch" by (simp add: e)
  then have ok: "cell_ok g ?rr ?cc" by (simp add: fits_at_def)
  define g1 where "g1 = (if cell_at g ?rr ?cc = EMPTY then upd g (nat ?rr) (nat ?cc) [ch] else g)"
  define changed1 where
    "changed1 = (if cell_at g ?rr ?cc = EMPTY then changed @ [(?rr, ?cc)] else changed)"
  have step: "place_word_loop g1 es r c dr dc changed1 = Inr (g', changed')"
    using Cons.prems(4) ok
    by (auto simp: e g1_def changed1_def get_cell_ok set_cell_ok Let_def split: if_splits)
  have sh: "same_shape g g1" by (simp add: g1_def)
  have here: "cell_at g1 ?rr ?cc = [ch]"
    using fit ok by (auto simp: g1_def fits_at_def cell_at_upd)
  have other: "cell_at g1 rr cc = cell_at g rr cc"
    if "cell_ok g rr cc" "(rr, cc) \<noteq> (?rr, ?cc)" for rr cc
    using that ok by (auto simp: g1_def cell_at_upd_other)
  have apart: "(r + int j * dr, c + int j * dc) \<noteq> (?rr, ?cc)" if "(j, x) \<in> set es" for j x
  proof -
    from Cons.prems(2) that have "j \<noteq> i" by (auto simp: e image_iff)
    with Cons.prems(3) show ?thesis by auto
  qed
  have fits1: "\<forall>(j, x) \<in> set es. fits_at g1 (r + int j * dr) (c + int j * dc) x"
  proof (clarify)
    fix j x assume jx: "(j, x) \<in> set es"
    with Cons.prems(1) have f: "fits_at g (r + int j * dr) (c + int j * dc) x" by auto
    then have "cell_ok g (r + int j * dr) (c + int j * dc)" by (simp add: fits_at_def)
    from other [OF this apart [OF jx]] f same_shape_cell_ok [OF sh] same_shape_length [OF sh]
    show "fits_at g1 (r + int j * dr) (c + int j * dc) x"
      by (simp add: fits_at_def)
  qed
  from Cons.prems(2) have dist: "distinct (map fst es)" by simp
  from Cons.IH [OF fits1 dist Cons.prems(3) step]
  have rest: "\<forall>(j, x) \<in> set es. cell_at g' (r + int j * dr) (c + int j * dc) = [x]" .
  have "\<forall>(j, x) \<in> set es. cell_ok g1 (r + int j * dr) (c + int j * dc)"
    using fits1 by (auto simp: fits_at_def)
  from place_word_loop_extends [OF this step] have "extends g1 g'" .
  moreover have "cell_ok g1 ?rr ?cc" using ok same_shape_cell_ok [OF sh] by simp
  ultimately have "cell_at g' ?rr ?cc = [ch]"
    using here by (simp add: extends_def)
  with rest show ?case by (simp add: e)
qed

lemma place_word_occurs:
  assumes "can_place_word g w r c dr dc = Inr True" and "\<not> (dr = 0 \<and> dc = 0)"
    and "place_word g w r c dr dc = Inr (g', changed)"
  shows "occurs_at g' w r c dr dc" and "extends g g'"
proof -
  have fits: "\<forall>(i, ch) \<in> set (enumerate 0 w). fits_at g (r + int i * dr) (c + int i * dc) ch"
    using assms(1) by (rule can_place_word_cells)
  then have oks: "\<forall>(i, ch) \<in> set (enumerate 0 w). cell_ok g (r + int i * dr) (c + int i * dc)"
    by (auto simp: fits_at_def)
  from assms(3) have loop: "place_word_loop g (enumerate 0 w) r c dr dc [] = Inr (g', changed)"
    by (simp add: place_word_def)
  from place_word_loop_extends [OF oks loop] show ext: "extends g g'" .
  then have sh: "same_shape g g'" by (rule extends_same_shape)
  have "\<forall>(i, ch) \<in> set (enumerate 0 w). cell_at g' (r + int i * dr) (c + int i * dc) = [ch]"
    using fits _ assms(2) loop by (rule place_word_loop_occurs) simp
  then have "\<forall>i<length w. cell_at g' (r + int i * dr) (c + int i * dc) = [w ! i]"
    by (simp add: set_enumerate_ball)
  moreover have "\<forall>i<length w. in_bounds (int (length g')) (r + int i * dr) (c + int i * dc) \<and>
      cell_ok g' (r + int i * dr) (c + int i * dc)"
    using can_place_word_in_bounds(1,2) [OF assms(1)]
      same_shape_cell_ok [OF sh] same_shape_length [OF sh] by simp
  ultimately show "occurs_at g' w r c dr dc" by (simp add: occurs_at_def)
qed

subsection \<open>A failed search restores the grid\<close>

text \<open>The equation of the search is recursive without a pattern; it is unfolded by hand.\<close>

declare backtrack_place_words.simps [simp del]

lemma rng_ok_shuffle: "rng_ok L \<Longrightarrow> shuffle L g xs = (ys, g') \<Longrightarrow> set ys = set xs"
  unfolding rng_ok_def by (metis fst_conv mset_eq_setD)

lemma candidates_can_place:
  "(r, c, (dr, dc)) \<in> set (candidates g w ds) \<Longrightarrow> can_place_word g w r c dr dc = Inr True"
  unfolding set_candidates by blast

lemma search_failure_restores:
  "rng_ok L \<Longrightarrow> backtrack_place_words L g ws idx ds rng = Inr (False, g', rng') \<Longrightarrow> g' = g"
  "rng_ok L \<Longrightarrow> \<forall>(r, c, (dr, dc)) \<in> set ps. can_place_word g word r c dr dc = Inr True \<Longrightarrow>
   try_placements L g ws idx ds word ps rng = Inr (False, g', rng') \<Longrightarrow> g' = g"
proof (induction L g ws idx ds rng and L g ws idx ds word ps rng arbitrary: g' rng' and g' rng'
    rule: backtrack_place_words_try_placements.induct)
  case (1 L grid words idx directions rng)
  from "1.prems"(2) have ne: "idx \<noteq> int (length words)"
    by (auto simp: backtrack_place_words.simps)
  with "1.prems"(2) obtain word where w: "py_get words idx = Inr word"
    by (auto simp: backtrack_place_words.simps split: sum.splits)
  with ne "1.prems"(2) obtain pl where pl: "all_possible_placements grid word directions = Inr pl"
    by (auto simp: backtrack_place_words.simps split: sum.splits)
  obtain pl' rng1 where sh: "shuffle L rng pl = (pl', rng1)" by (cases "shuffle L rng pl")
  from ne w pl sh "1.prems"(2) have t:
    "try_placements L grid words idx directions word pl' rng1 = Inr (False, g', rng')"
    by (simp add: backtrack_place_words.simps)
  have "set pl' = set (candidates grid word directions)"
    using rng_ok_shuffle [OF "1.prems"(1) sh] all_possible_placements_Inr [OF pl] by simp
  then have "\<forall>(r, c, (dr, dc)) \<in> set pl'. can_place_word grid word r c dr dc = Inr True"
    using candidates_can_place by auto
  from "1.IH" [OF ne w pl sh [symmetric] "1.prems"(1) this t] show ?case .
next
  case (2 L grid words idx directions word rng)
  then show ?case by simp
next
  case (3 L grid words idx directions word r c dr dc placements rng)
  from "3.prems"(2) have cp: "can_place_word grid word r c dr dc = Inr True" by simp
  from place_word_undo [OF cp] obtain g1 changed where
    p: "place_word grid word r c dr dc = Inr (g1, changed)"
    and u: "undo_changes g1 changed = Inr grid" by blast
  from p "3.prems"(3) obtain s g2 rng2 where
    b: "backtrack_place_words L g1 words (idx + 1) directions rng = Inr (s, g2, rng2)"
    by (auto split: sum.splits)
  from p b "3.prems"(3) have s: "\<not> s" by (auto split: if_splits)
  with b have "g2 = g1" using "3.IH"(1) [OF p refl "3.prems"(1)] by simp
  with p b s u "3.prems"(3) have t:
    "try_placements L grid words idx directions word placements rng2 = Inr (False, g', rng')"
    by simp
  have u2: "undo_changes g2 changed = Inr grid" using u \<open>g2 = g1\<close> by simp
  from "3.prems"(2) have v: "\<forall>(r, c, (dr, dc)) \<in> set placements. can_place_word grid word r c dr dc = Inr True"
    by simp
  from "3.IH"(2) [OF p refl b refl refl s u2 "3.prems"(1) v t] show ?case .
qed

subsection \<open>The instance satisfies what is asked of the generator\<close>

lemma mset_rotate: "mset (rotate n xs) = mset xs"
  by (metis rotate_drop_take mset_append union_commute append_take_drop_id)

lemma rng_ok_demo_library: "rng_ok demo_library"
  by (simp add: rng_ok_def demo_library_def mset_rotate)

lemma all_less_two: "(\<forall>i<2::nat. P i) \<longleftrightarrow> P 0 \<and> P 1"
  by (metis One_nat_def less_2_cases_iff)

lemma square_demo_grid: "square demo_grid"
  by (simp add: square_def demo_grid_def)

subsection \<open>Random fill\<close>

lemma is_letter_not_EMPTY: "is_letter v \<Longrightarrow> v \<noteq> EMPTY"
  by (auto simp: is_letter_def)

lemma fills_refl [simp]: "fills g g"
  by (simp add: fills_def)

lemma fills_trans:
  assumes "fills g g'" and "fills g' g''"
  shows "fills g g''"
  unfolding fills_def
proof (intro conjI allI impI)
  show "same_shape g g''" using assms by (auto simp: fills_def intro: same_shape_trans)
next
  fix rr cc assume ok: "cell_ok g rr cc"
  from assms(1) have sh: "same_shape g g'" by (simp add: fills_def)
  from ok have ok': "cell_ok g' rr cc" using same_shape_cell_ok [OF sh] by simp
  from assms(1) ok have 1: "cell_at g' rr cc = cell_at g rr cc \<or>
        (cell_at g rr cc = EMPTY \<and> is_letter (cell_at g' rr cc))" by (simp add: fills_def)
  from assms(2) ok' have 2: "cell_at g'' rr cc = cell_at g' rr cc \<or>
        (cell_at g' rr cc = EMPTY \<and> is_letter (cell_at g'' rr cc))" by (simp add: fills_def)
  from 1 2 show "cell_at g'' rr cc = cell_at g rr cc \<or>
        (cell_at g rr cc = EMPTY \<and> is_letter (cell_at g'' rr cc))"
    using is_letter_not_EMPTY by auto
qed

lemma fills_extends: "fills g g' \<Longrightarrow> extends g g'"
  unfolding fills_def extends_def by auto

lemma fills_same_shape: "fills g g' \<Longrightarrow> same_shape g g'"
  by (simp add: fills_def)

lemma fills_upd:
  assumes "cell_ok g rr cc" and "cell_at g rr cc = EMPTY" and "is_letter v"
  shows "fills g (upd g (nat rr) (nat cc) v)"
  unfolding fills_def
proof (intro conjI allI impI)
  show "same_shape g (upd g (nat rr) (nat cc) v)" by simp
next
  fix rr' cc' assume ok: "cell_ok g rr' cc'"
  show "cell_at (upd g (nat rr) (nat cc) v) rr' cc' = cell_at g rr' cc' \<or>
        cell_at g rr' cc' = EMPTY \<and> is_letter (cell_at (upd g (nat rr) (nat cc) v) rr' cc')"
  proof (cases "(rr', cc') = (rr, cc)")
    case True
    with assms show ?thesis by (simp add: cell_at_upd_same)
  next
    case False
    with assms(1) ok show ?thesis by (simp add: cell_at_upd_other)
  qed
qed

lemma rng_ok_choice:
  "rng_ok L \<Longrightarrow> choice L g ascii_uppercase = (ch, g') \<Longrightarrow> is_letter [ch]"
proof -
  assume ok: "rng_ok L" and ch: "choice L g ascii_uppercase = (ch, g')"
  have "ascii_uppercase \<noteq> []" by (simp add: ascii_uppercase_def)
  with ok have "fst (choice L g ascii_uppercase) \<in> set ascii_uppercase"
    unfolding rng_ok_def by blast
  with ch show "is_letter [ch]" by (simp add: is_letter_def)
qed

lemma fill_columns_spec:
  assumes "rng_ok L" and "\<forall>c \<in> set cs. cell_ok g r c"
  shows "\<exists>g' rng'. fill_columns L g r cs rng = Inr (g', rng') \<and> fills g g' \<and>
           (\<forall>c \<in> set cs. cell_at g' r c \<noteq> EMPTY)"
  using assms(2)
proof (induction cs arbitrary: g rng)
  case Nil
  then show ?case by simp
next
  case (Cons c cs)
  from Cons.prems have ok: "cell_ok g r c" by simp
  obtain ch rng1 where ch: "choice L rng ascii_uppercase = (ch, rng1)"
    by (cases "choice L rng ascii_uppercase")
  define g1 where "g1 = (if cell_at g r c = EMPTY then upd g (nat r) (nat c) [ch] else g)"
  define rng2 where "rng2 = (if cell_at g r c = EMPTY then rng1 else rng)"
  have step: "fill_columns L g r (c # cs) rng = fill_columns L g1 r cs rng2"
    using ok ch by (simp add: g1_def rng2_def get_cell_ok set_cell_ok)
  have f1: "fills g g1"
    using ok rng_ok_choice [OF assms(1) ch] by (simp add: g1_def fills_upd)
  then have sh: "same_shape g g1" by (rule fills_same_shape)
  have here: "cell_at g1 r c \<noteq> EMPTY"
    using ok by (simp add: g1_def cell_at_upd_same)
  have "\<forall>c \<in> set cs. cell_ok g1 r c"
    using Cons.prems same_shape_cell_ok [OF sh] by simp
  from Cons.IH [OF this, of rng2] obtain g' rng' where r:
    "fill_columns L g1 r cs rng2 = Inr (g', rng')" "fills g1 g'"
    "\<forall>c \<in> set cs. cell_at g' r c \<noteq> EMPTY" by blast
  have "cell_ok g1 r c" using ok same_shape_cell_ok [OF sh] by simp
  with fills_extends [OF r(2)] here have "cell_at g' r c \<noteq> EMPTY"
    by (simp add: extends_def)
  with r step fills_trans [OF f1 r(2)] show ?case by auto
qed

lemma square_row_cells:
  assumes "square g" and "0 \<le> r" and "r < int (length g)"
  shows "\<forall>c \<in> set (map int [0..<length g]). cell_ok g r c"
  using assms by (auto intro!: square_cell_ok simp: in_bounds_def)

lemma fill_rows_spec:
  assumes "rng_ok L" and "square g" and "\<forall>r \<in> set rs. 0 \<le> r \<and> r < int (length g)"
  shows "\<exists>g' rng'. fill_rows L g rs rng = Inr (g', rng') \<and> fills g g' \<and>
           (\<forall>r \<in> set rs. \<forall>c \<in> set (map int [0..<length g]). cell_at g' r c \<noteq> EMPTY)"
  using assms(2,3)
proof (induction rs arbitrary: g rng)
  case Nil
  then show ?case by simp
next
  case (Cons r rs)
  from Cons.prems have r: "0 \<le> r" "r < int (length g)" by simp_all
  let ?cs = "map int [0..<length g]"
  from fill_columns_spec [OF assms(1) square_row_cells [OF Cons.prems(1) r], of rng]
  obtain g1 rng1 where 1: "fill_columns L g r ?cs rng = Inr (g1, rng1)" "fills g g1"
    "\<forall>c \<in> set ?cs. cell_at g1 r c \<noteq> EMPTY" by blast
  from 1(2) have sh: "same_shape g g1" by (rule fills_same_shape)
  then have len: "length g1 = length g" by (simp add: same_shape_length)
  have sq: "square g1" using sh Cons.prems(1) by (rule same_shape_square)
  have "\<forall>r \<in> set rs. 0 \<le> r \<and> r < int (length g1)" using Cons.prems(2) len by simp
  from Cons.IH [OF sq this, of rng1] obtain g' rng' where 2:
    "fill_rows L g1 rs rng1 = Inr (g', rng')" "fills g1 g'"
    "\<forall>r \<in> set rs. \<forall>c \<in> set (map int [0..<length g1]). cell_at g' r c \<noteq> EMPTY" by blast
  have "\<forall>c \<in> set ?cs. cell_at g' r c \<noteq> EMPTY"
  proof
    fix c assume c: "c \<in> set ?cs"
    with square_row_cells [OF Cons.prems(1) r] have "cell_ok g r c" by blast
    then have "cell_ok g1 r c" using same_shape_cell_ok [OF sh] by simp
    moreover from 1(3) c have "cell_at g1 r c \<noteq> EMPTY" by blast
    ultimately have "cell_at g' r c = cell_at g1 r c"
      using fills_extends [OF 2(2)] by (simp add: extends_def)
    with \<open>cell_at g1 r c \<noteq> EMPTY\<close> show "cell_at g' r c \<noteq> EMPTY" by simp
  qed
  with 1(1) 2 len fills_trans [OF 1(2) 2(2)] show ?case by auto
qed

lemma fill_empty_spec:
  assumes "rng_ok L" and "square g"
  shows "\<exists>g' rng'. fill_empty_with_random_letters L g rng = Inr (g', rng') \<and> fills g g' \<and>
           (\<forall>rr cc. cell_ok g rr cc \<longrightarrow> cell_at g' rr cc \<noteq> EMPTY)"
proof -
  have "\<forall>r \<in> set (map int [0..<length g]). 0 \<le> r \<and> r < int (length g)" by simp
  from fill_rows_spec [OF assms this, of rng] obtain g' rng' where f:
    "fill_rows L g (map int [0..<length g]) rng = Inr (g', rng')" "fills g g'"
    "\<forall>r \<in> set (map int [0..<length g]). \<forall>c \<in> set (map int [0..<length g]). cell_at g' r c \<noteq> EMPTY"
    by blast
  have "cell_at g' rr cc \<noteq> EMPTY" if "cell_ok g rr cc" for rr cc
  proof -
    from that assms(2) have "0 \<le> rr" "rr < int (length g)" "0 \<le> cc" "cc < int (length g)"
      by (auto simp: cell_ok_def square_def list_all_length)
    then have "nat rr \<in> set [0..<length g]" "nat cc \<in> set [0..<length g]"
      "int (nat rr) = rr" "int (nat cc) = cc" by simp_all
    then have "rr \<in> set (map int [0..<length g])" "cc \<in> set (map int [0..<length g])"
      by (metis image_eqI list.set_map)+
    with f(3) show ?thesis by blast
  qed
  with f(1,2) show ?thesis by (auto simp: fill_empty_with_random_letters_def)
qed

subsection \<open>What a successful search leaves\<close>

lemma appears_extends: "appears g w ds \<Longrightarrow> extends g g' \<Longrightarrow> appears g' w ds"
  unfolding appears_def using occurs_at_extends by blast

lemma py_get_nonneg:
  "0 \<le> idx \<Longrightarrow> py_get ws idx = Inr w \<Longrightarrow> idx < int (length ws) \<and> w = ws ! nat idx"
  by (auto simp: py_get_def py_index_def split: if_splits)

lemma py_get_in_set: "py_get ws idx = Inr w \<Longrightarrow> w \<in> set ws"
  by (auto simp: py_get_def py_index_def split: if_splits)

lemma drop_nat_idx:
  "0 \<le> idx \<Longrightarrow> idx < int (length ws) \<Longrightarrow>
   drop (nat idx) ws = ws ! nat idx # drop (nat (idx + 1)) ws"
  by (simp add: Cons_nth_drop_Suc nat_add_distrib)

lemma candidates_direction:
  "(r, c, (dr, dc)) \<in> set (candidates g w ds) \<Longrightarrow> (dr, dc) \<in> set ds \<and> \<not> (dr = 0 \<and> dc = 0)"
  unfolding set_candidates by blast

lemma search_success_places:
  "rng_ok L \<Longrightarrow> 0 \<le> idx \<Longrightarrow>
   backtrack_place_words L g ws idx ds rng = Inr (True, g', rng') \<Longrightarrow>
   extends g g' \<and> (\<forall>w \<in> set (drop (nat idx) ws). appears g' w ds)"
  "rng_ok L \<Longrightarrow> 0 \<le> idx \<Longrightarrow> idx < int (length ws) \<Longrightarrow> word = ws ! nat idx \<Longrightarrow>
   set ps \<subseteq> set (candidates g word ds) \<Longrightarrow>
   try_placements L g ws idx ds word ps rng = Inr (True, g', rng') \<Longrightarrow>
   extends g g' \<and> (\<forall>w \<in> set (drop (nat idx) ws). appears g' w ds)"
proof (induction L g ws idx ds rng and L g ws idx ds word ps rng arbitrary: g' rng' and g' rng'
    rule: backtrack_place_words_try_placements.induct)
  case (1 L grid words idx directions rng)
  show ?case
  proof (cases "idx = int (length words)")
    case True
    with "1.prems"(3) show ?thesis by (simp add: backtrack_place_words.simps)
  next
    case ne: False
    with "1.prems"(3) obtain word where w: "py_get words idx = Inr word"
      by (auto simp: backtrack_place_words.simps split: sum.splits)
    with ne "1.prems"(3) obtain pl where pl: "all_possible_placements grid word directions = Inr pl"
      by (auto simp: backtrack_place_words.simps split: sum.splits)
    obtain pl' rng1 where sh: "shuffle L rng pl = (pl', rng1)" by (cases "shuffle L rng pl")
    from ne w pl sh "1.prems"(3) have t:
      "try_placements L grid words idx directions word pl' rng1 = Inr (True, g', rng')"
      by (simp add: backtrack_place_words.simps)
    have sub: "set pl' \<subseteq> set (candidates grid word directions)"
      using rng_ok_shuffle [OF "1.prems"(1) sh] all_possible_placements_Inr [OF pl] by simp
    from py_get_nonneg [OF "1.prems"(2) w] have i: "idx < int (length words)" "word = words ! nat idx"
      by simp_all
    from "1.IH" [OF ne w pl sh [symmetric] "1.prems"(1,2) i sub t] show ?thesis .
  qed
next
  case (2 L grid words idx directions word rng)
  then show ?case by simp
next
  case (3 L grid words idx directions word r c dr dc placements rng)
  from "3.prems"(5) have cand: "(r, c, (dr, dc)) \<in> set (candidates grid word directions)" by simp
  then have cp: "can_place_word grid word r c dr dc = Inr True" by (rule candidates_can_place)
  from cand have dir: "(dr, dc) \<in> set directions" "\<not> (dr = 0 \<and> dc = 0)"
    using candidates_direction by blast+
  from place_word_undo [OF cp] obtain g1 changed where
    p: "place_word grid word r c dr dc = Inr (g1, changed)"
    and u: "undo_changes g1 changed = Inr grid" by blast
  from place_word_occurs [OF cp dir(2) p] have occ: "occurs_at g1 word r c dr dc"
    and ext1: "extends grid g1" by simp_all
  from p "3.prems"(6) obtain s g2 rng2 where
    b: "backtrack_place_words L g1 words (idx + 1) directions rng = Inr (s, g2, rng2)"
    by (auto split: sum.splits)
  have i1: "0 \<le> idx + 1" using "3.prems"(2) by simp
  show ?case
  proof (cases s)
    case True
    with p b "3.prems"(6) have eq: "g' = g2" "rng' = rng2" by simp_all
    from "3.IH"(1) [OF p refl "3.prems"(1) i1] b True
    have ih: "extends g1 g2" "\<forall>w \<in> set (drop (nat (idx + 1)) words). appears g2 w directions"
      by simp_all
    have "appears g1 word directions" unfolding appears_def using occ dir by blast
    then have "appears g2 word directions" using ih(1) by (rule appears_extends)
    with ih(2) have "\<forall>w \<in> set (drop (nat idx) words). appears g2 w directions"
      using drop_nat_idx [OF "3.prems"(2,3)] "3.prems"(4) by simp
    with extends_trans [OF ext1 ih(1)] eq show ?thesis by simp
  next
    case False
    with b have "backtrack_place_words L g1 words (idx + 1) directions rng = Inr (False, g2, rng2)"
      by simp
    then have "g2 = g1" by (rule search_failure_restores(1) [OF "3.prems"(1)])
    with u have u2: "undo_changes g2 changed = Inr grid" by simp
    with p b False "3.prems"(6) have t:
      "try_placements L grid words idx directions word placements rng2 = Inr (True, g', rng')"
      by simp
    from "3.prems"(5) have sub: "set placements \<subseteq> set (candidates grid word directions)" by simp
    from "3.IH"(2) [OF p refl b refl refl False u2 "3.prems"(1,2,3,4) sub t] show ?thesis .
  qed
qed

subsection \<open>The search succeeds exactly when an arrangement fits\<close>

lemma arrangement_fits_Cons_iff:
  "(\<exists>ps. arrangement_fits g (w # ws) ds ps) \<longleftrightarrow>
   (\<exists>p \<in> set (candidates g w ds). leads_on g w ws ds p)"
proof
  assume "\<exists>ps. arrangement_fits g (w # ws) ds ps"
  then obtain ps where f: "arrangement_fits g (w # ws) ds ps" by blast
  then obtain r c dr dc qs where ps: "ps = (r, c, (dr, dc)) # qs"
    by (cases ps) auto
  from f have "(r, c, (dr, dc)) \<in> set (candidates g w ds)"
    unfolding set_candidates ps by simp
  moreover from f have "leads_on g w ws ds (r, c, (dr, dc))"
    unfolding ps leads_on_def by (auto split: sum.splits)
  ultimately show "\<exists>p \<in> set (candidates g w ds). leads_on g w ws ds p" by blast
next
  assume "\<exists>p \<in> set (candidates g w ds). leads_on g w ws ds p"
  then obtain r c dr dc where cand: "(r, c, (dr, dc)) \<in> set (candidates g w ds)"
    and l: "leads_on g w ws ds (r, c, (dr, dc))" by auto
  from l obtain g1 changed qs where
    "place_word g w r c dr dc = Inr (g1, changed)" "arrangement_fits g1 ws ds qs"
    unfolding leads_on_def by auto
  moreover from cand have "in_bounds (int (length g)) r c" "(dr, dc) \<in> set ds"
    "\<not> (dr = 0 \<and> dc = 0)" "can_place_word g w r c dr dc = Inr True"
    unfolding set_candidates by auto
  ultimately have "arrangement_fits g (w # ws) ds ((r, c, (dr, dc)) # qs)" by simp
  then show "\<exists>ps. arrangement_fits g (w # ws) ds ps" by blast
qed

lemma arrangement_fits_Nil_iff: "(\<exists>ps. arrangement_fits g [] ds ps) \<longleftrightarrow> True"
  by (auto intro: exI [of _ "[]"])

lemma search_complete:
  "rng_ok L \<Longrightarrow> square g \<Longrightarrow> 0 \<le> idx \<Longrightarrow> idx \<le> int (length ws) \<Longrightarrow>
   \<exists>b g' rng'. backtrack_place_words L g ws idx ds rng = Inr (b, g', rng') \<and>
     (b \<longleftrightarrow> (\<exists>ps. arrangement_fits g (drop (nat idx) ws) ds ps))"
  "rng_ok L \<Longrightarrow> square g \<Longrightarrow> 0 \<le> idx \<Longrightarrow> idx < int (length ws) \<Longrightarrow> word = ws ! nat idx \<Longrightarrow>
   set ps \<subseteq> set (candidates g word ds) \<Longrightarrow>
   \<exists>b g' rng'. try_placements L g ws idx ds word ps rng = Inr (b, g', rng') \<and>
     (b \<longleftrightarrow> (\<exists>p \<in> set ps. leads_on g word (drop (nat (idx + 1)) ws) ds p))"
proof (induction L g ws idx ds rng and L g ws idx ds word ps rng
    rule: backtrack_place_words_try_placements.induct)
  case (1 L grid words idx directions rng)
  show ?case
  proof (cases "idx = int (length words)")
    case True
    then have "backtrack_place_words L grid words idx directions rng = Inr (True, grid, rng)"
      by (simp add: backtrack_place_words.simps)
    moreover from True have "arrangement_fits grid (drop (nat idx) words) directions []"
      by simp
    ultimately show ?thesis by blast
  next
    case ne: False
    with "1.prems"(3,4) have i: "idx < int (length words)" by simp
    define word where "word = words ! nat idx"
    have w: "py_get words idx = Inr word"
      using "1.prems"(3) i by (simp add: py_get_def py_index_def word_def)
    have pl: "all_possible_placements grid word directions = Inr (candidates grid word directions)"
      using "1.prems"(2) by (rule all_possible_placements_square)
    obtain pl' rng1 where sh: "shuffle L rng (candidates grid word directions) = (pl', rng1)"
      by (cases "shuffle L rng (candidates grid word directions)")
    have set_eq: "set pl' = set (candidates grid word directions)"
      using rng_ok_shuffle [OF "1.prems"(1) sh] .
    then have sub: "set pl' \<subseteq> set (candidates grid word directions)" by simp
    from "1.IH" [OF ne w pl sh [symmetric] "1.prems"(1,2,3) i word_def sub]
    obtain b g' rng' where t:
      "try_placements L grid words idx directions word pl' rng1 = Inr (b, g', rng')"
      "b \<longleftrightarrow> (\<exists>p \<in> set pl'. leads_on grid word (drop (nat (idx + 1)) words) directions p)"
      by blast
    have "backtrack_place_words L grid words idx directions rng = Inr (b, g', rng')"
      using ne w pl sh t(1) by (simp add: backtrack_place_words.simps)
    moreover have "b \<longleftrightarrow> (\<exists>ps. arrangement_fits grid (drop (nat idx) words) directions ps)"
      unfolding drop_nat_idx [OF "1.prems"(3) i] arrangement_fits_Cons_iff t(2) set_eq word_def ..
    ultimately show ?thesis by blast
  qed
next
  case (2 L grid words idx directions word rng)
  have "try_placements L grid words idx directions word [] rng = Inr (False, grid, rng)" by simp
  then show ?case by auto
next
  case (3 L grid words idx directions word r c dr dc placements rng)
  let ?rest = "drop (nat (idx + 1)) words"
  from "3.prems"(6) have cand: "(r, c, (dr, dc)) \<in> set (candidates grid word directions)" by simp
  then have cp: "can_place_word grid word r c dr dc = Inr True" by (rule candidates_can_place)
  from place_word_undo [OF cp] obtain g1 changed where
    p: "place_word grid word r c dr dc = Inr (g1, changed)"
    and sh: "same_shape grid g1"
    and u: "undo_changes g1 changed = Inr grid" by blast
  have sq1: "square g1" using sh "3.prems"(2) by (rule same_shape_square)
  have i1: "0 \<le> idx + 1" "idx + 1 \<le> int (length words)" using "3.prems"(3,4) by simp_all
  from "3.IH"(1) [OF p refl "3.prems"(1) sq1 i1]
  obtain s g2 rng2 where
    b: "backtrack_place_words L g1 words (idx + 1) directions rng = Inr (s, g2, rng2)"
    and s: "s \<longleftrightarrow> (\<exists>qs. arrangement_fits g1 ?rest directions qs)" by blast
  have lead: "leads_on grid word ?rest directions (r, c, (dr, dc)) \<longleftrightarrow> s"
    unfolding leads_on_def s using p by simp
  show ?case
  proof (cases s)
    case True
    with p b have "try_placements L grid words idx directions word ((r, c, (dr, dc)) # placements) rng =
        Inr (True, g2, rng2)" by simp
    with lead True show ?thesis by auto
  next
    case False
    with b have "backtrack_place_words L g1 words (idx + 1) directions rng = Inr (False, g2, rng2)"
      by simp
    then have "g2 = g1" by (rule search_failure_restores(1) [OF "3.prems"(1)])
    with u have u2: "undo_changes g2 changed = Inr grid" by simp
    from "3.prems"(6) have sub: "set placements \<subseteq> set (candidates grid word directions)" by simp
    from "3.IH"(2) [OF p refl b refl refl False u2 "3.prems"(1,2,3,4,5) sub]
    obtain b' g' rng' where t:
      "try_placements L grid words idx directions word placements rng2 = Inr (b', g', rng')"
      "b' \<longleftrightarrow> (\<exists>p \<in> set placements. leads_on grid word ?rest directions p)" by blast
    from p b False u2 t(1) have
      "try_placements L grid words idx directions word ((r, c, (dr, dc)) # placements) rng =
        Inr (b', g', rng')" by simp
    with t(2) lead False show ?thesis by auto
  qed
qed

subsection \<open>What the cells hold\<close>

lemma all_cells_iff: "all_cells P g \<longleftrightarrow> (\<forall>row \<in> set g. \<forall>cell \<in> set row. P cell)"
  by (simp add: all_cells_def list_all_iff)

lemma all_cells_update:
  assumes "all_cells P g" and "P v"
  shows "all_cells P (g[a := (g ! a)[b := v]])"
proof (cases "a < length g")
  case False
  with assms(1) show ?thesis by (simp add: list_update_beyond)
next
  case True
  then have row: "g ! a \<in> set g" by simp
  show ?thesis unfolding all_cells_iff
  proof (intro ballI)
    fix row cell assume r: "row \<in> set (g[a := (g ! a)[b := v]])" and c: "cell \<in> set row"
    from r have "row = (g ! a)[b := v] \<or> row \<in> set g"
      using set_update_subset_insert [of g a "(g ! a)[b := v]"] by auto
    then show "P cell"
    proof
      assume "row \<in> set g"
      with assms(1) c show ?thesis by (simp add: all_cells_iff)
    next
      assume "row = (g ! a)[b := v]"
      with c have "cell = v \<or> cell \<in> set (g ! a)"
        using set_update_subset_insert [of "g ! a" b v] by auto
      with assms row show ?thesis by (auto simp: all_cells_iff)
    qed
  qed
qed

lemma set_cell_all_cells:
  "set_cell g r c v = Inr g' \<Longrightarrow> all_cells P g \<Longrightarrow> P v \<Longrightarrow> all_cells P g'"
  by (auto simp: set_cell_def all_cells_update split: sum.splits)

lemma place_word_loop_all_cells:
  "place_word_loop g es r c dr dc changed = Inr (g', changed') \<Longrightarrow> all_cells P g \<Longrightarrow>
   \<forall>(i, ch) \<in> set es. P [ch] \<Longrightarrow> all_cells P g'"
proof (induction es arbitrary: g changed)
  case Nil
  then show ?case by simp
next
  case (Cons e es)
  obtain i ch where e: "e = (i, ch)" by (cases e)
  let ?rr = "r + int i * dr" and ?cc = "c + int i * dc"
  from Cons.prems(1) obtain cell where g: "get_cell g ?rr ?cc = Inr cell"
    by (auto simp: e Let_def split: sum.splits)
  show ?case
  proof (cases "cell = EMPTY")
    case False
    with Cons.prems(1) g have "place_word_loop g es r c dr dc changed = Inr (g', changed')"
      by (simp add: e Let_def)
    from Cons.IH [OF this Cons.prems(2)] Cons.prems(3) show ?thesis by simp
  next
    case True
    with Cons.prems(1) g obtain g1 where s: "set_cell g ?rr ?cc [ch] = Inr g1"
      and l: "place_word_loop g1 es r c dr dc (changed @ [(?rr, ?cc)]) = Inr (g', changed')"
      by (auto simp: e Let_def split: sum.splits)
    from Cons.prems(3) have "P [ch]" by (simp add: e)
    from set_cell_all_cells [OF s Cons.prems(2) this] have "all_cells P g1" .
    from Cons.IH [OF l this] Cons.prems(3) show ?thesis by simp
  qed
qed

lemma place_word_all_cells:
  "place_word g w r c dr dc = Inr (g', changed) \<Longrightarrow> all_cells P g \<Longrightarrow>
   \<forall>ch \<in> set w. P [ch] \<Longrightarrow> all_cells P g'"
  unfolding place_word_def
  by (erule place_word_loop_all_cells) (auto simp: in_set_enumerate_eq)

lemma undo_changes_all_cells:
  "undo_changes g changed = Inr g' \<Longrightarrow> all_cells P g \<Longrightarrow> P EMPTY \<Longrightarrow> all_cells P g'"
proof (induction changed arbitrary: g)
  case Nil
  then show ?case by simp
next
  case (Cons p changed)
  obtain r c where p: "p = (r, c)" by (cases p)
  from Cons.prems(1) obtain g1 where s: "set_cell g r c EMPTY = Inr g1"
    and u: "undo_changes g1 changed = Inr g'"
    by (auto simp: p split: sum.splits)
  from set_cell_all_cells [OF s Cons.prems(2,3)] have "all_cells P g1" .
  from Cons.IH [OF u this Cons.prems(3)] show ?case .
qed

lemma search_all_cells:
  "backtrack_place_words L g ws idx ds rng = Inr (b, g', rng') \<Longrightarrow> all_cells P g \<Longrightarrow>
   P EMPTY \<Longrightarrow> \<forall>w \<in> set ws. \<forall>ch \<in> set w. P [ch] \<Longrightarrow> all_cells P g'"
  "try_placements L g ws idx ds word ps rng = Inr (b, g', rng') \<Longrightarrow> all_cells P g \<Longrightarrow>
   P EMPTY \<Longrightarrow> \<forall>w \<in> set ws. \<forall>ch \<in> set w. P [ch] \<Longrightarrow> \<forall>ch \<in> set word. P [ch] \<Longrightarrow>
   all_cells P g'"
proof (induction L g ws idx ds rng and L g ws idx ds word ps rng arbitrary: b g' rng' and b g' rng'
    rule: backtrack_place_words_try_placements.induct)
  case (1 L grid words idx directions rng)
  show ?case
  proof (cases "idx = int (length words)")
    case True
    with "1.prems"(1,2) show ?thesis by (simp add: backtrack_place_words.simps)
  next
    case ne: False
    with "1.prems"(1) obtain word where w: "py_get words idx = Inr word"
      by (auto simp: backtrack_place_words.simps split: sum.splits)
    with ne "1.prems"(1) obtain pl where pl: "all_possible_placements grid word directions = Inr pl"
      by (auto simp: backtrack_place_words.simps split: sum.splits)
    obtain pl' rng1 where sh: "shuffle L rng pl = (pl', rng1)" by (cases "shuffle L rng pl")
    from ne w pl sh "1.prems"(1) have t:
      "try_placements L grid words idx directions word pl' rng1 = Inr (b, g', rng')"
      by (simp add: backtrack_place_words.simps)
    from py_get_in_set [OF w] "1.prems"(4) have "\<forall>ch \<in> set word. P [ch]" by blast
    from "1.IH" [OF ne w pl sh [symmetric] t "1.prems"(2,3,4) this] show ?thesis .
  qed
next
  case (2 L grid words idx directions word rng)
  then show ?case by simp
next
  case (3 L grid words idx directions word r c dr dc placements rng)
  from "3.prems"(1) obtain g1 changed where p: "place_word grid word r c dr dc = Inr (g1, changed)"
    by (auto split: sum.splits)
  from place_word_all_cells [OF p "3.prems"(2,5)] have c1: "all_cells P g1" .
  from p "3.prems"(1) obtain s g2 rng2 where
    bt: "backtrack_place_words L g1 words (idx + 1) directions rng = Inr (s, g2, rng2)"
    by (auto split: sum.splits)
  from "3.IH"(1) [OF p refl bt c1 "3.prems"(3,4)] have c2: "all_cells P g2" .
  show ?case
  proof (cases s)
    case True
    with p bt "3.prems"(1) c2 show ?thesis by simp
  next
    case False
    with p bt "3.prems"(1) obtain g3 where u: "undo_changes g2 changed = Inr g3"
      and t: "try_placements L g3 words idx directions word placements rng2 = Inr (b, g', rng')"
      by (auto split: sum.splits)
    from undo_changes_all_cells [OF u c2 "3.prems"(3)] have c3: "all_cells P g3" .
    from "3.IH"(2) [OF p refl bt refl refl False u t c3 "3.prems"(3,4,5)] show ?thesis .
  qed
qed

lemma all_cells_cell_at:
  "all_cells P g \<longleftrightarrow> (\<forall>rr cc. cell_ok g rr cc \<longrightarrow> P (cell_at g rr cc))"
proof
  assume a: "all_cells P g"
  show "\<forall>rr cc. cell_ok g rr cc \<longrightarrow> P (cell_at g rr cc)"
  proof (intro allI impI)
    fix rr cc assume "cell_ok g rr cc"
    then have "nat rr < length g" "nat cc < length (g ! nat rr)" by (auto simp: cell_ok_def)
    then have "g ! nat rr \<in> set g" "g ! nat rr ! nat cc \<in> set (g ! nat rr)" by simp_all
    with a show "P (cell_at g rr cc)" by (auto simp: all_cells_iff cell_at_def)
  qed
next
  assume a: "\<forall>rr cc. cell_ok g rr cc \<longrightarrow> P (cell_at g rr cc)"
  show "all_cells P g" unfolding all_cells_iff
  proof (intro ballI)
    fix row cell assume "row \<in> set g" "cell \<in> set row"
    then obtain i j where "i < length g" "row = g ! i" "j < length row" "cell = row ! j"
      by (metis in_set_conv_nth)
    then have "cell_ok g (int i) (int j)" "cell = cell_at g (int i) (int j)"
      by (simp_all add: cell_ok_def cell_at_def)
    with a show "P cell" by blast
  qed
qed

lemma square_make_empty_grid: "square (make_empty_grid sz)"
  by (simp add: square_def make_empty_grid_def list_all_iff)

lemma all_cells_make_empty_grid: "P EMPTY \<Longrightarrow> all_cells P (make_empty_grid sz)"
  by (simp add: all_cells_iff make_empty_grid_def)

lemma same_shape_make_empty_grid:
  assumes "same_shape (make_empty_grid sz) g"
  shows "length g = nat sz" and "\<forall>row \<in> set g. length row = nat sz"
proof -
  from assms have m: "map length g = replicate (nat sz) (nat sz)"
    by (simp add: same_shape_def make_empty_grid_def)
  then show "length g = nat sz" by (metis length_map length_replicate)
  from m have "set (map length g) \<subseteq> {nat sz}" by (simp add: set_replicate_conv_if)
  then show "\<forall>row \<in> set g. length row = nat sz" by auto
qed

subsection \<open>The two outcomes of the generation\<close>

lemma generate_wordsearch_cases:
  fixes L :: "'g library" and sz :: int and words :: "string list" and diag :: bool
    and os_rng :: 'g and seed :: "int option"
  assumes "rng_ok L"
  defines "g0 \<equiv> make_empty_grid sz" and "ws \<equiv> cleaned_words L words"
    and "ds \<equiv> directions_for diag" and "rng \<equiv> Random L os_rng seed"
  shows "\<exists>b g1 rng1. backtrack_place_words L g0 ws 0 ds rng = Inr (b, g1, rng1) \<and>
           (b \<longleftrightarrow> (\<exists>ps. arrangement_fits g0 ws ds ps)) \<and>
           (\<not> b \<longrightarrow> generate_wordsearch L os_rng words sz diag seed = Inl ValueError) \<and>
           (b \<longrightarrow> (\<exists>g2. generate_wordsearch L os_rng words sz diag seed = Inr g2 \<and>
                    extends g0 g1 \<and> (\<forall>w \<in> set ws. appears g1 w ds) \<and> fills g1 g2 \<and>
                    (\<forall>rr cc. cell_ok g2 rr cc \<longrightarrow> cell_at g2 rr cc \<noteq> EMPTY)))"
proof -
  have sq: "square g0" unfolding g0_def by (rule square_make_empty_grid)
  from search_complete(1) [OF assms(1) sq, of 0 ws ds rng]
  obtain b g1 rng1 where bt: "backtrack_place_words L g0 ws 0 ds rng = Inr (b, g1, rng1)"
    and b: "b \<longleftrightarrow> (\<exists>ps. arrangement_fits g0 ws ds ps)" by auto
  have gen: "generate_wordsearch L os_rng words sz diag seed =
      (if \<not> b then Inl ValueError
       else case fill_empty_with_random_letters L g1 rng1 of
              Inl e \<Rightarrow> Inl e | Inr (g2, rng2) \<Rightarrow> Inr g2)"
    using bt unfolding generate_wordsearch_def g0_def ws_def ds_def rng_def
    by (simp add: Let_def)
  show ?thesis
  proof (cases b)
    case False
    with bt b gen show ?thesis by auto
  next
    case True
    with bt have bt': "backtrack_place_words L g0 ws 0 ds rng = Inr (True, g1, rng1)" by simp
    from search_success_places(1) [OF assms(1) _ bt']
    have ext: "extends g0 g1" and app: "\<forall>w \<in> set ws. appears g1 w ds" by simp_all
    from ext have sh: "same_shape g0 g1" by (rule extends_same_shape)
    then have sq1: "square g1" using sq by (rule same_shape_square)
    from fill_empty_spec [OF assms(1) sq1, of rng1] obtain g2 rng2 where
      f: "fill_empty_with_random_letters L g1 rng1 = Inr (g2, rng2)" "fills g1 g2"
      "\<forall>rr cc. cell_ok g1 rr cc \<longrightarrow> cell_at g2 rr cc \<noteq> EMPTY" by blast
    from f(2) have "same_shape g1 g2" by (rule fills_same_shape)
    with f(3) have "\<forall>rr cc. cell_ok g2 rr cc \<longrightarrow> cell_at g2 rr cc \<noteq> EMPTY"
      using same_shape_cell_ok by blast
    moreover from gen True f(1) have "generate_wordsearch L os_rng words sz diag seed = Inr g2"
      by simp
    ultimately show ?thesis using bt b True ext app f(2) by blast
  qed
qed

lemma directions_for_nonzero: "(dr, dc) \<in> set (directions_for diag) \<Longrightarrow> \<not> (dr = 0 \<and> dc = 0)"
  by (auto simp: directions_for_def DIRECTIONS_8_def split: if_splits)

lemma arrangement_fits_length:
  "arrangement_fits g ws ds ps \<Longrightarrow> w \<in> set ws \<Longrightarrow> length w \<le> length g"
proof (induction g ws ds ps rule: arrangement_fits.induct)
  case (2 g w' ws ds r c dr dc ps)
  from "2.prems"(1) have cp: "can_place_word g w' r c dr dc = Inr True" "\<not> (dr = 0 \<and> dc = 0)"
    by simp_all
  from "2.prems"(1) obtain g1 changed where p: "place_word g w' r c dr dc = Inr (g1, changed)"
    and f: "arrangement_fits g1 ws ds ps" by (auto split: sum.splits)
  show ?case
  proof (cases "w = w'")
    case True
    with cp show ?thesis using can_place_word_length by blast
  next
    case False
    with "2.prems"(2) have "w \<in> set ws" by simp
    from "2.IH" [OF p refl f this] have "length w \<le> length g1" .
    moreover from place_word_undo [OF cp(1)] p have "same_shape g g1" by auto
    ultimately show ?thesis by (simp add: same_shape_length)
  qed
qed simp_all

subsection \<open>Runs of the instance\<close>

lemma demo_generate:
  "generate_wordsearch demo_library 0 [''cat'', ''dog''] 3 False (Some 1) = Inr demo_result"
  by code_simp

lemma demo_cleaned: "cleaned_words demo_library [''cat'', ''dog''] = [''CAT'', ''DOG'']"
  by code_simp

text \<open>
  The model is made of functions, so two runs on equal arguments are equal by the logic
  itself, whatever the program does: that a run is repeatable is what the embedding takes
  from Python (a seeded \<^verbatim>\<open>random.Random\<close> replays its draws, and the program reads no other
  source of randomness), not something it can show. What can be said inside the model is only
  how the start state is chosen: with a seed the state the operating system would give is not
  used, and without a seed the result does depend on it.
\<close>

lemma seeded_generation_ignores_os_state:
  "generate_wordsearch L os_rng words sz allow_diagonals (Some s) =
   generate_wordsearch L os_rng' words sz allow_diagonals (Some s)"
  by (simp add: generate_wordsearch_def Random_def)

lemma generate_wordsearch_unseeded_varies:
  "generate_wordsearch demo_library 0 [''ab''] 2 False None \<noteq>
   generate_wordsearch demo_library 5 [''ab''] 2 False None"
  by code_simp

section \<open>The claims\<close>

subsection \<open>Compatibility check\<close>

text \<open>
  Claim C2. For every grid, word, start cell \<open>(r, c)\<close> and direction \<open>(dr, dc)\<close>,
  \<^verbatim>\<open>can_place_word\<close> returns true if and only if for every index \<open>i\<close> of the word the cell
  \<open>(r + i * dr, c + i * dc)\<close> is in bounds of the grid and is either the empty marker or
  already holds the \<open>i\<close>-th letter of the word. On a square grid it never raises, and what
  it returns is the truth value of that condition.
\<close>

theorem can_place_word_iff:
  "(can_place_word grid word r c dr dc = Inr True \<longleftrightarrow>
      (\<forall>i<length word.
         in_bounds (int (length grid)) (r + int i * dr) (c + int i * dc) \<and>
         cell_ok grid (r + int i * dr) (c + int i * dc) \<and>
         (cell_at grid (r + int i * dr) (c + int i * dc) = EMPTY \<or>
          cell_at grid (r + int i * dr) (c + int i * dc) = [word ! i]))) \<and>
   (square grid \<longrightarrow>
      can_place_word grid word r c dr dc =
        Inr (\<forall>i<length word.
               in_bounds (int (length grid)) (r + int i * dr) (c + int i * dc) \<and>
               (cell_at grid (r + int i * dr) (c + int i * dc) = EMPTY \<or>
                cell_at grid (r + int i * dr) (c + int i * dc) = [word ! i])))"
proof (intro conjI impI)
  show "can_place_word grid word r c dr dc = Inr True \<longleftrightarrow>
      (\<forall>i<length word.
         in_bounds (int (length grid)) (r + int i * dr) (c + int i * dc) \<and>
         cell_ok grid (r + int i * dr) (c + int i * dc) \<and>
         (cell_at grid (r + int i * dr) (c + int i * dc) = EMPTY \<or>
          cell_at grid (r + int i * dr) (c + int i * dc) = [word ! i]))"
    unfolding can_place_word_def can_place_loop_True_iff set_enumerate_ball fits_at_def
    by auto
next
  assume "square grid"
  then show "can_place_word grid word r c dr dc =
        Inr (\<forall>i<length word.
               in_bounds (int (length grid)) (r + int i * dr) (c + int i * dc) \<and>
               (cell_at grid (r + int i * dr) (c + int i * dc) = EMPTY \<or>
                cell_at grid (r + int i * dr) (c + int i * dc) = [word ! i]))"
    unfolding can_place_word_def
    by (simp add: can_place_loop_square set_enumerate_ball fits_at_def) (metis square_cell_ok)
qed

theorem can_place_word_iff_witness:
  "square demo_grid \<and> can_place_word demo_grid ''AB'' 0 0 0 1 = Inr True \<and>
   in_bounds (int (length demo_grid)) 0 1 \<and> cell_ok demo_grid 0 1 \<and>
   (cell_at demo_grid 0 1 = EMPTY \<or> cell_at demo_grid 0 1 = ''B'') \<and>
   can_place_word demo_grid ''BA'' 0 0 0 1 = Inr False"
proof -
  have e: "can_place_word demo_grid ''AB'' 0 0 0 1 = Inr True" by code_simp
  from can_place_word_iff [of demo_grid "''AB''" 0 0 0 1] e
  have "\<forall>i<length ''AB''.
      in_bounds (int (length demo_grid)) (0 + int i * 0) (0 + int i * 1) \<and>
      cell_ok demo_grid (0 + int i * 0) (0 + int i * 1) \<and>
      (cell_at demo_grid (0 + int i * 0) (0 + int i * 1) = EMPTY \<or>
       cell_at demo_grid (0 + int i * 0) (0 + int i * 1) = [''AB'' ! i])"
    by blast
  from this [rule_format, of 1]
  have 1: "in_bounds (int (length demo_grid)) 0 1 \<and> cell_ok demo_grid 0 1 \<and>
      (cell_at demo_grid 0 1 = EMPTY \<or> cell_at demo_grid 0 1 = ''B'')"
    by simp
  have "\<not> (cell_at demo_grid (0 + int 0 * 0) (0 + int 0 * 1) = EMPTY \<or>
       cell_at demo_grid (0 + int 0 * 0) (0 + int 0 * 1) = [''BA'' ! 0])"
    by (simp add: demo_grid_def cell_at_def)
  then have "\<not> (\<forall>i<length ''BA''.
      in_bounds (int (length demo_grid)) (0 + int i * 0) (0 + int i * 1) \<and>
      (cell_at demo_grid (0 + int i * 0) (0 + int i * 1) = EMPTY \<or>
       cell_at demo_grid (0 + int i * 0) (0 + int i * 1) = [''BA'' ! i]))"
    by (metis length_greater_0_conv list.distinct(1))
  with can_place_word_iff [of demo_grid "''BA''" 0 0 0 1] square_demo_grid
  have 2: "can_place_word demo_grid ''BA'' 0 0 0 1 = Inr False" by simp
  from e 1 2 square_demo_grid show ?thesis by simp
qed

subsection \<open>Placement and undo\<close>

text \<open>
  Claim C3. Whenever \<^verbatim>\<open>can_place_word\<close> holds for a grid, word, start cell and
  direction, \<^verbatim>\<open>place_word\<close> returns a grid and a change set, and \<^verbatim>\<open>undo_changes\<close> with
  that change set gives back exactly the grid before the placement.
\<close>

theorem place_then_undo_is_identity:
  "can_place_word grid word r c dr dc = Inr True \<Longrightarrow>
   \<exists>grid' changed. place_word grid word r c dr dc = Inr (grid', changed) \<and>
      undo_changes grid' changed = Inr grid"
  using place_word_undo by blast

theorem place_then_undo_is_identity_witness:
  "can_place_word demo_grid ''AB'' 0 0 0 1 = Inr True \<and>
   place_word demo_grid ''AB'' 0 0 0 1 = Inr ([[''A'', ''B''], [EMPTY, EMPTY]], [(0, 1)]) \<and>
   undo_changes [[''A'', ''B''], [EMPTY, EMPTY]] [(0, 1)] = Inr demo_grid"
proof -
  have h: "can_place_word demo_grid ''AB'' 0 0 0 1 = Inr True" by code_simp
  have p: "place_word demo_grid ''AB'' 0 0 0 1 = Inr ([[''A'', ''B''], [EMPTY, EMPTY]], [(0, 1)])"
    by code_simp
  from place_then_undo_is_identity [OF h] h p show ?thesis by simp
qed

text \<open>
  Claim C4. For every grid and every change set of coordinates of that grid,
  \<^verbatim>\<open>undo_changes\<close> returns a grid of the same shape in which exactly the coordinates listed
  in the change set hold the empty marker and every other cell is unchanged.
\<close>

theorem undo_changes_frame:
  "\<forall>(r, c) \<in> set changed. cell_ok grid r c \<Longrightarrow>
   \<exists>grid'. undo_changes grid changed = Inr grid' \<and> same_shape grid grid' \<and>
     (\<forall>r c. cell_ok grid r c \<longrightarrow>
        cell_at grid' r c = (if (r, c) \<in> set changed then EMPTY else cell_at grid r c))"
  by (rule undo_changes_spec)

theorem undo_changes_frame_witness:
  "cell_ok demo_grid 0 0 \<and> cell_ok demo_grid 1 1 \<and>
   undo_changes demo_grid [(0, 0), (1, 1)] = Inr (make_empty_grid 2)"
proof -
  have h: "\<forall>(r, c) \<in> set [(0, 0), (1, 1)]. cell_ok demo_grid r c"
    by (simp add: cell_ok_def demo_grid_def)
  have "undo_changes demo_grid [(0, 0), (1, 1)] = Inr (make_empty_grid 2)" by code_simp
  with undo_changes_frame [OF h] h show ?thesis by simp
qed

subsection \<open>Candidate enumeration\<close>

text \<open>
  Claim C5. For every grid, word and direction list, what \<^verbatim>\<open>all_possible_placements\<close>
  returns is exactly the triples \<open>(r, c, (dr, dc))\<close>, over every grid cell and every listed
  direction that is not zero, for which \<^verbatim>\<open>can_place_word\<close> succeeds on that grid: each such
  triple is in the result, and each element of the result is such a triple. On a square grid
  it never raises.
\<close>

theorem all_possible_placements_exact:
  "(\<forall>placements. all_possible_placements grid word directions = Inr placements \<longrightarrow>
      set placements =
        {(r, c, (dr, dc)) | r c dr dc.
           in_bounds (int (length grid)) r c \<and> (dr, dc) \<in> set directions \<and>
           \<not> (dr = 0 \<and> dc = 0) \<and> can_place_word grid word r c dr dc = Inr True}) \<and>
   (square grid \<longrightarrow>
      (\<exists>placements. all_possible_placements grid word directions = Inr placements))"
proof (intro conjI allI impI)
  fix placements
  assume "all_possible_placements grid word directions = Inr placements"
  then have "placements = candidates grid word directions" by (rule all_possible_placements_Inr)
  then show "set placements =
        {(r, c, (dr, dc)) | r c dr dc.
           in_bounds (int (length grid)) r c \<and> (dr, dc) \<in> set directions \<and>
           \<not> (dr = 0 \<and> dc = 0) \<and> can_place_word grid word r c dr dc = Inr True}"
    by (simp only: set_candidates)
next
  assume "square grid"
  then have "all_possible_placements grid word directions = Inr (candidates grid word directions)"
    by (rule all_possible_placements_square)
  then show "\<exists>placements. all_possible_placements grid word directions = Inr placements" ..
qed

theorem all_possible_placements_exact_witness:
  "square demo_grid \<and>
   all_possible_placements demo_grid ''BA'' [(0, 1), (0, -1), (1, 0), (-1, 0)] =
     Inr [(0, 1, (0, -1)), (0, 1, (1, 0)), (1, 0, (0, 1)), (1, 0, (-1, 0)), (1, 1, (0, -1)), (1, 1, (-1, 0))] \<and>
   can_place_word demo_grid ''BA'' 1 0 (-1) 0 = Inr True"
proof -
  let ?ps = "[(0, 1, (0, -1)), (0, 1, (1, 0)), (1, 0, (0, 1)), (1, 0, (-1, 0)), (1, 1, (0, -1)),
     (1, 1, (-1, 0))] :: placement list"
  have e: "all_possible_placements demo_grid ''BA'' [(0, 1), (0, -1), (1, 0), (-1, 0)] = Inr ?ps"
    by code_simp
  from all_possible_placements_exact [of demo_grid "''BA''" "[(0, 1), (0, -1), (1, 0), (-1, 0)]"]
  have "\<forall>placements. all_possible_placements demo_grid ''BA'' [(0, 1), (0, -1), (1, 0), (-1, 0)] =
      Inr placements \<longrightarrow>
      set placements = {(r, c, (dr, dc)) | r c dr dc.
          in_bounds (int (length demo_grid)) r c \<and> (dr, dc) \<in> set [(0, 1), (0, -1), (1, 0), (-1, 0)] \<and>
          \<not> (dr = 0 \<and> dc = 0) \<and> can_place_word demo_grid ''BA'' r c dr dc = Inr True}"
    by (rule conjunct1)
  from this [rule_format, OF e]
  have s: "set ?ps = {(r, c, (dr, dc)) | r c dr dc.
          in_bounds (int (length demo_grid)) r c \<and> (dr, dc) \<in> set [(0, 1), (0, -1), (1, 0), (-1, 0)] \<and>
          \<not> (dr = 0 \<and> dc = 0) \<and> can_place_word demo_grid ''BA'' r c dr dc = Inr True}" .
  have "(1, 0, (-1, 0)) \<in> set ?ps" by simp
  then have "\<exists>r c dr dc. (1, 0, (-1, 0)) = (r, c, (dr, dc)) \<and>
      can_place_word demo_grid ''BA'' r c dr dc = Inr True"
    unfolding s by blast
  then have "can_place_word demo_grid ''BA'' 1 0 (-1) 0 = Inr True" by simp
  with e square_demo_grid show ?thesis by simp
qed

text \<open>
  Claim C9, as stated, fails in its second part: the length that counts is that of the word
  after normalization. The word \<^verbatim>\<open>a b\<close> of the input list has three characters, more than
  the size 2, and \<^verbatim>\<open>generate_wordsearch\<close> returns a grid, in which the two letters that are
  left of it are placed.
\<close>

theorem too_long_word_has_no_placement_counterexample:
  "nat 2 < length ''a b'' \<and>
   generate_wordsearch demo_library 0 [''a b''] 2 False (Some 1) =
     Inr [[''A'', ''C''], [''B'', ''D'']]"
proof -
  have "generate_wordsearch demo_library 0 [''a b''] 2 False (Some 1) =
     Inr [[''A'', ''C''], [''B'', ''D'']]"
    by code_simp
  then show ?thesis by simp
qed

text \<open>
  Claim C9, amended. On a square grid with fewer rows than the word has letters,
  \<^verbatim>\<open>all_possible_placements\<close> returns the empty list, in any direction list; and
  consequently \<^verbatim>\<open>generate_wordsearch\<close> raises the placement error whenever one of the
  normalized words of its list has more letters than the grid has rows.
\<close>

theorem too_long_word_has_no_placement:
  "(square grid \<and> length grid < length word \<longrightarrow>
      all_possible_placements grid word directions = Inr []) \<and>
   (rng_ok L \<and> w \<in> set (cleaned_words L words) \<and> nat sz < length w \<longrightarrow>
      generate_wordsearch L os_rng words sz allow_diagonals seed = Inl ValueError)"
proof (intro conjI impI)
  assume "square grid \<and> length grid < length word"
  then show "all_possible_placements grid word directions = Inr []"
    by (simp add: all_possible_placements_square candidates_too_long)
next
  assume a: "rng_ok L \<and> w \<in> set (cleaned_words L words) \<and> nat sz < length w"
  have "\<not> arrangement_fits (make_empty_grid sz) (cleaned_words L words)
          (directions_for allow_diagonals) ps" for ps
  proof
    assume "arrangement_fits (make_empty_grid sz) (cleaned_words L words)
          (directions_for allow_diagonals) ps"
    from arrangement_fits_length [OF this, of w] a show False
      by (simp add: make_empty_grid_def)
  qed
  with generate_wordsearch_cases [where L = L and sz = sz and words = words and diag = allow_diagonals and os_rng = os_rng and seed = seed] a
  show "generate_wordsearch L os_rng words sz allow_diagonals seed = Inl ValueError"
    by auto
qed

theorem too_long_word_has_no_placement_witness:
  "square demo_grid \<and> length demo_grid < length ''ABC'' \<and>
   all_possible_placements demo_grid ''ABC'' DIRECTIONS_8 = Inr [] \<and>
   rng_ok demo_library \<and> ''HOUSE'' \<in> set (cleaned_words demo_library [''cat'', ''house'']) \<and>
   nat 3 < length ''HOUSE'' \<and>
   generate_wordsearch demo_library 0 [''cat'', ''house''] 3 True (Some 1) = Inl ValueError"
proof -
  have a: "square demo_grid \<and> length demo_grid < length ''ABC''"
    using square_demo_grid by (simp add: demo_grid_def)
  have c: "cleaned_words demo_library [''cat'', ''house''] = [''HOUSE'', ''CAT'']" by code_simp
  have b: "rng_ok demo_library \<and> ''HOUSE'' \<in> set (cleaned_words demo_library [''cat'', ''house'']) \<and>
      nat 3 < length ''HOUSE''"
    using rng_ok_demo_library by (simp add: c)
  from too_long_word_has_no_placement [of demo_grid "''ABC''" DIRECTIONS_8 demo_library
      "''HOUSE''" "[''cat'', ''house'']" 3 0 True "Some 1"] a b
  show ?thesis by blast
qed

subsection \<open>Backtracking search\<close>

text \<open>
  Claim C10. Whenever \<^verbatim>\<open>backtrack_place_words\<close> returns False, the grid is exactly in the
  state it had when the call was entered.
\<close>

theorem failed_search_leaves_grid_unchanged:
  "rng_ok L \<Longrightarrow>
   backtrack_place_words L grid words idx directions rng = Inr (False, grid', rng') \<Longrightarrow>
   grid' = grid"
  by (rule search_failure_restores(1))

theorem failed_search_leaves_grid_unchanged_witness:
  "rng_ok demo_library \<and>
   backtrack_place_words demo_library demo_grid [''AB'', ''CD'', ''EF''] 0 (directions_for False) 3 =
     Inr (False, demo_grid, 14)"
proof -
  have e: "backtrack_place_words demo_library demo_grid [''AB'', ''CD'', ''EF''] 0 (directions_for False) 3 =
     Inr (False, [[''A'', EMPTY], [EMPTY, EMPTY]], 14)"
    by code_simp
  from failed_search_leaves_grid_unchanged [OF rng_ok_demo_library e] e rng_ok_demo_library
  show ?thesis by simp
qed

subsection \<open>Top-level generation\<close>

text \<open>
  Claim C1. For every grid that \<^verbatim>\<open>generate_wordsearch\<close> returns and every normalized input
  word, the letters of the word appear contiguously in the grid along one of the permitted
  directions (the eight of \<^verbatim>\<open>DIRECTIONS_8\<close> with diagonals, else the four axis-aligned
  ones), starting from some cell and matching the grid exactly at those positions.
\<close>

theorem every_word_appears_in_returned_grid:
  assumes "rng_ok L"
    and "generate_wordsearch L os_rng words sz allow_diagonals seed = Inr grid"
    and "w \<in> set (cleaned_words L words)"
  shows "\<exists>r c dr dc. (dr, dc) \<in> set (directions_for allow_diagonals) \<and>
           (\<forall>i<length w.
              in_bounds (int (length grid)) (r + int i * dr) (c + int i * dc) \<and>
              cell_ok grid (r + int i * dr) (c + int i * dc) \<and>
              cell_at grid (r + int i * dr) (c + int i * dc) = [w ! i])"
proof -
  from generate_wordsearch_cases [OF assms(1), where sz = sz and words = words and diag = allow_diagonals and os_rng = os_rng and seed = seed] assms(2)
  obtain g1 where ext: "extends (make_empty_grid sz) g1"
    and app: "\<forall>w \<in> set (cleaned_words L words). appears g1 w (directions_for allow_diagonals)"
    and f: "fills g1 grid"
    by auto
  from app assms(3) have "appears g1 w (directions_for allow_diagonals)" by blast
  then have "appears grid w (directions_for allow_diagonals)"
    using fills_extends [OF f] by (rule appears_extends)
  then show ?thesis unfolding appears_def occurs_at_def by blast
qed

theorem every_word_appears_in_returned_grid_witness:
  "rng_ok demo_library \<and>
   generate_wordsearch demo_library 0 [''cat'', ''dog''] 3 False (Some 1) = Inr demo_result \<and>
   ''DOG'' \<in> set (cleaned_words demo_library [''cat'', ''dog'']) \<and>
   (\<exists>r c dr dc. (dr, dc) \<in> set (directions_for False) \<and>
      (\<forall>i<length ''DOG''.
         in_bounds (int (length demo_result)) (r + int i * dr) (c + int i * dc) \<and>
         cell_ok demo_result (r + int i * dr) (c + int i * dc) \<and>
         cell_at demo_result (r + int i * dr) (c + int i * dc) = [''DOG'' ! i]))"
proof -
  have m: "''DOG'' \<in> set (cleaned_words demo_library [''cat'', ''dog''])"
    by (simp add: demo_cleaned)
  from every_word_appears_in_returned_grid [OF rng_ok_demo_library demo_generate m]
    rng_ok_demo_library demo_generate m
  show ?thesis by blast
qed

text \<open>
  Claim C6. The search on the empty grid returns a flag and never raises. The flag is false
  exactly when no arrangement of all normalized words fits the grid under the chosen
  direction set. When it is false \<^verbatim>\<open>generate_wordsearch\<close> raises its error and returns no
  grid; when it is true \<^verbatim>\<open>generate_wordsearch\<close> returns a completed grid.
\<close>

theorem generate_wordsearch_raises_iff_search_fails:
  assumes "rng_ok L"
  shows "\<exists>success grid' rng'.
           backtrack_place_words L (make_empty_grid sz) (cleaned_words L words) 0
             (directions_for allow_diagonals) (Random L os_rng seed) = Inr (success, grid', rng') \<and>
           (success \<longleftrightarrow>
              (\<exists>ps. arrangement_fits (make_empty_grid sz) (cleaned_words L words)
                      (directions_for allow_diagonals) ps)) \<and>
           (if success
            then \<exists>grid. generate_wordsearch L os_rng words sz allow_diagonals seed = Inr grid \<and>
                   completed sz grid
            else generate_wordsearch L os_rng words sz allow_diagonals seed = Inl ValueError)"
proof -
  let ?g0 = "make_empty_grid sz"
  from generate_wordsearch_cases [OF assms, where sz = sz and words = words and diag = allow_diagonals and os_rng = os_rng and seed = seed]
  obtain b g1 rng1 where
    bt: "backtrack_place_words L ?g0 (cleaned_words L words) 0
           (directions_for allow_diagonals) (Random L os_rng seed) = Inr (b, g1, rng1)"
    and b: "b \<longleftrightarrow> (\<exists>ps. arrangement_fits ?g0 (cleaned_words L words)
                      (directions_for allow_diagonals) ps)"
    and fail: "\<not> b \<longrightarrow> generate_wordsearch L os_rng words sz allow_diagonals seed = Inl ValueError"
    and ok: "b \<longrightarrow> (\<exists>g2. generate_wordsearch L os_rng words sz allow_diagonals seed = Inr g2 \<and>
                    extends ?g0 g1 \<and> fills g1 g2 \<and>
                    (\<forall>rr cc. cell_ok g2 rr cc \<longrightarrow> cell_at g2 rr cc \<noteq> EMPTY))"
    by blast
  have "\<exists>grid. generate_wordsearch L os_rng words sz allow_diagonals seed = Inr grid \<and>
          completed sz grid" if b
  proof -
    from ok that obtain g2 where
      g: "generate_wordsearch L os_rng words sz allow_diagonals seed = Inr g2"
      and e: "extends ?g0 g1" and f: "fills g1 g2"
      and ne: "\<forall>rr cc. cell_ok g2 rr cc \<longrightarrow> cell_at g2 rr cc \<noteq> EMPTY" by blast
    have "same_shape ?g0 g2"
      using extends_same_shape [OF e] fills_same_shape [OF f] by (rule same_shape_trans)
    from same_shape_make_empty_grid [OF this] have
      len: "length g2 = nat sz" "\<forall>row \<in> set g2. length row = nat sz" .
    from ne have "all_cells (\<lambda>cell. cell \<noteq> EMPTY) g2" by (simp add: all_cells_cell_at)
    with len have "completed sz g2"
      by (simp add: completed_def all_cells_iff list_all_iff)
    with g show ?thesis by blast
  qed
  with bt b fail show ?thesis by (cases b) auto
qed

theorem generate_wordsearch_raises_iff_search_fails_witness:
  "rng_ok demo_library \<and>
   generate_wordsearch demo_library 0 [''ab'', ''cd'', ''ef''] 2 False (Some 1) = Inl ValueError \<and>
   \<not> (\<exists>ps. arrangement_fits (make_empty_grid 2) (cleaned_words demo_library [''ab'', ''cd'', ''ef''])
              (directions_for False) ps)"
proof -
  have e: "generate_wordsearch demo_library 0 [''ab'', ''cd'', ''ef''] 2 False (Some 1) = Inl ValueError"
    by code_simp
  from generate_wordsearch_raises_iff_search_fails [OF rng_ok_demo_library,
      of 2 "[''ab'', ''cd'', ''ef'']" False 0 "Some 1"]
  obtain success where
    s: "success \<longleftrightarrow> (\<exists>ps. arrangement_fits (make_empty_grid 2)
          (cleaned_words demo_library [''ab'', ''cd'', ''ef'']) (directions_for False) ps)"
    and g: "if success
            then \<exists>grid. generate_wordsearch demo_library 0 [''ab'', ''cd'', ''ef''] 2 False (Some 1) = Inr grid \<and>
                   completed 2 grid
            else generate_wordsearch demo_library 0 [''ab'', ''cd'', ''ef''] 2 False (Some 1) = Inl ValueError"
    by blast
  from g e have "\<not> success" by (auto split: if_splits)
  with s e rng_ok_demo_library show ?thesis by blast
qed

text \<open>
  Claim C8, as stated, fails: a normalized word may hold a character that is not a letter, and
  the grid then holds it. The word \<^verbatim>\<open>1\<close> on a grid of size 1 fills the only cell, whatever
  the generator does.
\<close>

theorem returned_grid_is_all_letters_counterexample:
  "generate_wordsearch demo_library 0 [''1''] 1 False (Some 1) = Inr [[''1'']] \<and>
   \<not> is_letter ''1''"
proof -
  have "generate_wordsearch demo_library 0 [''1''] 1 False (Some 1) = Inr [[''1'']]" by code_simp
  moreover have "\<not> is_letter ''1''" by (simp add: is_letter_def ascii_uppercase_def)
  ultimately show ?thesis by simp
qed

text \<open>
  Claim C8, amended. For every input whose normalized words consist of the letters A to Z
  only, and on which \<^verbatim>\<open>generate_wordsearch\<close> succeeds, the returned grid has N rows of N
  cells and every cell holds a single uppercase letter of the alphabet A to Z.
\<close>

theorem returned_grid_is_all_letters:
  assumes "rng_ok L"
    and "\<forall>w \<in> set (cleaned_words L words). \<forall>ch \<in> set w. ch \<in> set ascii_uppercase"
    and "generate_wordsearch L os_rng words sz allow_diagonals seed = Inr grid"
  shows "length grid = nat sz \<and>
         (\<forall>row \<in> set grid. length row = nat sz \<and> (\<forall>cell \<in> set row. is_letter cell))"
proof -
  let ?g0 = "make_empty_grid sz" and ?P = "\<lambda>cell. cell = EMPTY \<or> is_letter cell"
  from generate_wordsearch_cases [OF assms(1), where sz = sz and words = words and diag = allow_diagonals and os_rng = os_rng and seed = seed] assms(3)
  obtain b g1 rng1 where
    bt: "backtrack_place_words L ?g0 (cleaned_words L words) 0
           (directions_for allow_diagonals) (Random L os_rng seed) = Inr (b, g1, rng1)"
    and e: "extends ?g0 g1" and f: "fills g1 grid"
    and ne: "\<forall>rr cc. cell_ok grid rr cc \<longrightarrow> cell_at grid rr cc \<noteq> EMPTY"
    by auto
  have "\<forall>w \<in> set (cleaned_words L words). \<forall>ch \<in> set w. ?P [ch]"
    using assms(2) by (simp add: is_letter_def)
  from search_all_cells(1) [OF bt all_cells_make_empty_grid _ this]
  have c1: "all_cells ?P g1" by simp
  have sh: "same_shape g1 grid" using f by (rule fills_same_shape)
  have "is_letter (cell_at grid rr cc)" if ok: "cell_ok grid rr cc" for rr cc
  proof -
    from ok have ok1: "cell_ok g1 rr cc" using same_shape_cell_ok [OF sh] by simp
    with c1 have "?P (cell_at g1 rr cc)" by (simp add: all_cells_cell_at)
    moreover from f ok1 have "cell_at grid rr cc = cell_at g1 rr cc \<or>
        (cell_at g1 rr cc = EMPTY \<and> is_letter (cell_at grid rr cc))" by (simp add: fills_def)
    moreover from ne ok have "cell_at grid rr cc \<noteq> EMPTY" by blast
    ultimately show ?thesis by auto
  qed
  then have "all_cells is_letter grid" by (simp add: all_cells_cell_at)
  moreover have "same_shape ?g0 grid"
    using extends_same_shape [OF e] sh by (rule same_shape_trans)
  from same_shape_make_empty_grid [OF this] have
    "length grid = nat sz" "\<forall>row \<in> set grid. length row = nat sz" .
  ultimately show ?thesis by (simp add: all_cells_iff)
qed

theorem returned_grid_is_all_letters_witness:
  "rng_ok demo_library \<and>
   generate_wordsearch demo_library 0 [''cat'', ''dog''] 3 False (Some 1) = Inr demo_result \<and>
   length demo_result = 3 \<and> list_all (\<lambda>row. length row = 3 \<and> list_all is_letter row) demo_result"
proof -
  have h: "\<forall>w \<in> set (cleaned_words demo_library [''cat'', ''dog'']). \<forall>ch \<in> set w. ch \<in> set ascii_uppercase"
    unfolding demo_cleaned by (simp add: ascii_uppercase_def)
  from returned_grid_is_all_letters [OF rng_ok_demo_library h demo_generate]
    rng_ok_demo_library demo_generate
  show ?thesis by (simp add: list_all_iff)
qed

end
